theory Spec2Isabelle
  imports Main "HOL-Library.Multiset"
begin

section \<open>The playlist of sidplaywx: data model\<close>

text \<open>
  The embedding follows \<^verbatim>\<open>src/wxApplication/UIElements/Playlist/Playlist.cpp\<close>.
  A \<^verbatim>\<open>PlaylistTreeModelNode\<close> is a heap object that is owned by the vector holding it
  (\<^verbatim>\<open>_model.entries\<close> for a main song, the parent's child vector for a subsong), so the
  store is a list of node values, each carrying the list of the children it owns. The
  identity of a node is its address: a pointer or a reference to a node is an address,
  and it is resolved by looking the address up in the store.

  The member functions that change the playlist take the address of the node they are
  called with and read the node from the store; when the address is not in the store
  they end with the error \<open>InvalidReference\<close>. The \<^verbatim>\<open>const\<close> member functions only read
  their argument, so they take the node itself; a pointer they return is the node it
  points to, and the null pointer is \<open>None\<close>. The classes \<^verbatim>\<open>PlaylistTreeModelNode\<close> and
  \<^verbatim>\<open>PlaylistTreeModel\<close> are declared outside the source file; what is used of them is
  modelled from the specification and marked so.
\<close>

type_synonym addr = nat

datatype ItemType = Song | Subsong

datatype RomRequirement = RomNone | BasicRom | OtherRom

datatype ItemTag = Normal | ShortDuration | Blacklisted

datatype PlaylistIconId = NoIcon | DefaultSubsongIndicator | ChipIcon | SkipShort | RemoveSong

datatype wxColour = SystemHotlight | ColourName string

record wxDataViewItemAttr =
  bold :: bool
  strikethrough :: bool
  colour :: "wxColour option"

text \<open>
  The members of the node class. For a subsong the member \<^verbatim>\<open>defaultSubsong\<close> holds the
  subsong's own 1-based index (\<^verbatim>\<open>AddSubsongs\<close> passes \<^verbatim>\<open>cnt\<close> there). The duration is a
  \<^verbatim>\<open>uint_least32_t\<close> that is only stored, never computed with.
\<close>

datatype PlaylistTreeModelNode = PlaylistTreeModelNode
  (addr: addr) (type: ItemType) (title: string) (filepath: string) (defaultSubsong: int)
  (duration: nat) (author: string) (romRequirement: RomRequirement)
  (parent: "addr option") (children: "PlaylistTreeModelNode list")
  (playable: bool) (tag: ItemTag) (iconId: PlaylistIconId) (itemAttr: wxDataViewItemAttr)

text \<open>Errors: a failed \<^verbatim>\<open>assert\<close>, and the use of a reference to a node that is not in
  the store (undefined behaviour in the source).\<close>

datatype error = AssertionFailure | InvalidReference

text \<open>Calls into the wx base control, in the order they are made.\<close>

datatype Notification =
    ItemAdded "addr option" addr
  | ItemsAdded addr
  | ItemDeleted "addr option" addr
  | Cleared
  | ItemChanged addr
  | ColumnsCountChanged
  | Collapse "addr option"
  | Expand "addr option"
  | Refresh

text \<open>
  The state of a \<^verbatim>\<open>Playlist\<close>: the root vector of the model, the active item, the one
  option of the application settings that the class reads, the hidden flags of the two
  columns that \<^verbatim>\<open>RefreshAuthorColumnVisibility\<close> toggles, the next address the allocator
  hands out, and the calls made into the base control.
\<close>

record Playlist =
  entries :: "PlaylistTreeModelNode list"
  activeItem :: "addr option"
  RepeatModeDefaultSubsong :: bool
  authorColumnHidden :: bool
  placeholderLastHidden :: bool
  nextAddr :: addr
  notifications :: "Notification list"

section \<open>The node class\<close>

text \<open>Modelled from the spec: the default attribute of a node, which \<^verbatim>\<open>ResetItemAttr\<close>
  restores (class \<^verbatim>\<open>PlaylistTreeModelNode\<close> is declared outside the source file).\<close>

definition defaultItemAttr :: wxDataViewItemAttr where
  "defaultItemAttr = \<lparr>bold = False, strikethrough = False, colour = None\<rparr>"

text \<open>Modelled from the spec: the constructor of \<^verbatim>\<open>PlaylistTreeModelNode\<close>. A node
  without a parent is a song, a node with a parent is a subsong; a new node has the tag
  Normal, no icon, the default attribute and no children.\<close>

definition new_PlaylistTreeModelNode ::
  "addr \<Rightarrow> addr option \<Rightarrow> string \<Rightarrow> string \<Rightarrow> int \<Rightarrow> nat \<Rightarrow> string \<Rightarrow> RomRequirement \<Rightarrow> bool
    \<Rightarrow> PlaylistTreeModelNode" where
  "new_PlaylistTreeModelNode a parent' title' filepath' defaultSubsong' duration' author'
      romRequirement' playable' =
     PlaylistTreeModelNode a (if parent' = None then Song else Subsong) title' filepath'
       defaultSubsong' duration' author' romRequirement' parent' [] playable' Normal NoIcon
       defaultItemAttr"

text \<open>Writing the child collection and the attribute of a node.\<close>

definition set_children :: "PlaylistTreeModelNode list \<Rightarrow> PlaylistTreeModelNode \<Rightarrow> PlaylistTreeModelNode" where
  "set_children ch n =
     (case n of PlaylistTreeModelNode a ty ti fp ds du au rr pa _ pl tg ic at \<Rightarrow>
        PlaylistTreeModelNode a ty ti fp ds du au rr pa ch pl tg ic at)"

definition set_itemAttr :: "wxDataViewItemAttr \<Rightarrow> PlaylistTreeModelNode \<Rightarrow> PlaylistTreeModelNode" where
  "set_itemAttr at n =
     (case n of PlaylistTreeModelNode a ty ti fp ds du au rr pa ch pl tg ic _ \<Rightarrow>
        PlaylistTreeModelNode a ty ti fp ds du au rr pa ch pl tg ic at)"

text \<open>Modelled from the spec: \<^verbatim>\<open>SetTag\<close> of the node class stores the status tag.\<close>

definition SetTag :: "ItemTag \<Rightarrow> PlaylistTreeModelNode \<Rightarrow> PlaylistTreeModelNode" where
  "SetTag tg n =
     (case n of PlaylistTreeModelNode a ty ti fp ds du au rr pa ch pl _ ic at \<Rightarrow>
        PlaylistTreeModelNode a ty ti fp ds du au rr pa ch pl tg ic at)"

text \<open>Modelled from the spec: \<^verbatim>\<open>SetIconId\<close> of the node class stores the icon-state
  identifier.\<close>

definition SetIconId :: "PlaylistIconId \<Rightarrow> PlaylistTreeModelNode \<Rightarrow> PlaylistTreeModelNode" where
  "SetIconId ic n =
     (case n of PlaylistTreeModelNode a ty ti fp ds du au rr pa ch pl tg _ at \<Rightarrow>
        PlaylistTreeModelNode a ty ti fp ds du au rr pa ch pl tg ic at)"

text \<open>Modelled from the spec: \<^verbatim>\<open>ResetItemAttr\<close> of the node class resets the visual-state
  payload, here to the default attribute.\<close>

definition ResetItemAttr :: "PlaylistTreeModelNode \<Rightarrow> PlaylistTreeModelNode" where
  "ResetItemAttr n = set_itemAttr defaultItemAttr n"

text \<open>Modelled from the spec: \<^verbatim>\<open>GetItemAttr\<close> of the node class returns the attribute by
  reference, and \<^verbatim>\<open>SetBold\<close> of wx sets its bold flag.\<close>

definition SetBold :: "bool \<Rightarrow> PlaylistTreeModelNode \<Rightarrow> PlaylistTreeModelNode" where
  "SetBold b n = set_itemAttr ((itemAttr n)\<lparr>bold := b\<rparr>) n"

text \<open>Modelled from the spec: \<^verbatim>\<open>SetColour\<close> of wx sets the colour of the attribute that
  \<^verbatim>\<open>GetItemAttr\<close> returns.\<close>

definition SetColour :: "wxColour \<Rightarrow> PlaylistTreeModelNode \<Rightarrow> PlaylistTreeModelNode" where
  "SetColour c n = set_itemAttr ((itemAttr n)\<lparr>colour := Some c\<rparr>) n"

text \<open>Modelled from the spec: \<^verbatim>\<open>SetStrikethrough\<close> of wx sets the strikethrough flag of the
  attribute that \<^verbatim>\<open>GetItemAttr\<close> returns.\<close>

definition SetStrikethrough :: "bool \<Rightarrow> PlaylistTreeModelNode \<Rightarrow> PlaylistTreeModelNode" where
  "SetStrikethrough b n = set_itemAttr ((itemAttr n)\<lparr>strikethrough := b\<rparr>) n"

text \<open>Modelled from the spec: \<^verbatim>\<open>AddChild\<close> of the node class appends the adopted node to
  the child collection of the node.\<close>

definition AddChild :: "PlaylistTreeModelNode \<Rightarrow> PlaylistTreeModelNode \<Rightarrow> PlaylistTreeModelNode" where
  "AddChild childToAdopt n = set_children (children n @ [childToAdopt]) n"

text \<open>Modelled from the spec: \<^verbatim>\<open>GetParent\<close> of the node class returns the back-reference to
  the owning song, null for a song.\<close>

definition GetParent :: "PlaylistTreeModelNode \<Rightarrow> addr option" where
  "GetParent n = parent n"

text \<open>Modelled from the spec: \<^verbatim>\<open>GetChildren\<close> of the node class returns the child
  collection.\<close>

definition GetChildren :: "PlaylistTreeModelNode \<Rightarrow> PlaylistTreeModelNode list" where
  "GetChildren n = children n"

text \<open>Modelled from the spec: \<^verbatim>\<open>GetSubsongCount\<close> of the node class returns the number of
  subsongs of the node.\<close>

definition GetSubsongCount :: "PlaylistTreeModelNode \<Rightarrow> nat" where
  "GetSubsongCount n = length (children n)"

text \<open>Modelled from the spec: \<^verbatim>\<open>GetSubsong\<close> of the node class gives the subsong at a
  1-based index, and null for an index out of range ("the subsong at that index exists",
  "a getter that can itself return null for an out-of-range index").\<close>

definition GetSubsong_node :: "PlaylistTreeModelNode \<Rightarrow> int \<Rightarrow> PlaylistTreeModelNode option" where
  "GetSubsong_node n subsong =
     (if 1 \<le> subsong \<and> subsong \<le> int (length (children n))
      then Some (children n ! nat (subsong - 1)) else None)"

text \<open>Modelled from the spec: \<^verbatim>\<open>IsPlayable\<close> of the node class. A node is playable iff its
  playable flag is set and it is not tagged Blacklisted (the flag is computed by the
  caller from the ROM requirement).\<close>

definition IsPlayable :: "PlaylistTreeModelNode \<Rightarrow> bool" where
  "IsPlayable n \<longleftrightarrow> playable n \<and> tag n \<noteq> Blacklisted"

text \<open>Modelled from the spec: \<^verbatim>\<open>IsAutoPlayable\<close> of the node class. A node is
  auto-playable iff it is playable and not tagged ShortDuration.\<close>

definition IsAutoPlayable :: "PlaylistTreeModelNode \<Rightarrow> bool" where
  "IsAutoPlayable n \<longleftrightarrow> IsPlayable n \<and> tag n \<noteq> ShortDuration"

section \<open>Iterators and references\<close>

text \<open>\<^verbatim>\<open>std::find_if\<close>: the position of the first element that satisfies the predicate;
  the length of the list stands for the end iterator.\<close>

fun find_if :: "('a \<Rightarrow> bool) \<Rightarrow> 'a list \<Rightarrow> nat" where
  "find_if P [] = 0"
| "find_if P (x # xs) = (if P x then 0 else Suc (find_if P xs))"

text \<open>\<^verbatim>\<open>vector::erase\<close> at a position.\<close>

definition erase :: "nat \<Rightarrow> 'a list \<Rightarrow> 'a list" where
  "erase i xs = take i xs @ drop (Suc i) xs"

lemma size_children [termination_simp]:
  "x \<in> set (children n) \<Longrightarrow> size x < size n"
  by (cases n) (auto simp: less_Suc_eq_le intro: size_list_estimation')

text \<open>The nodes of the subtree of a node, the node first.\<close>

fun nodes_of :: "PlaylistTreeModelNode \<Rightarrow> PlaylistTreeModelNode list" where
  "nodes_of n = n # concat (map nodes_of (children n))"

declare nodes_of.simps [simp del]

definition all_nodes :: "Playlist \<Rightarrow> PlaylistTreeModelNode list" where
  "all_nodes s = concat (map nodes_of (entries s))"

text \<open>Dereferencing an address: the node of the store at this address, if there is one.\<close>

definition deref :: "Playlist \<Rightarrow> addr \<Rightarrow> PlaylistTreeModelNode option" where
  "deref s a = find (\<lambda>n. addr n = a) (all_nodes s)"

text \<open>A write through a reference: the node at the address is replaced by its image.\<close>

fun update_node :: "addr \<Rightarrow> (PlaylistTreeModelNode \<Rightarrow> PlaylistTreeModelNode) \<Rightarrow>
    PlaylistTreeModelNode \<Rightarrow> PlaylistTreeModelNode" where
  "update_node a f n =
     (if addr n = a then f n else set_children (map (update_node a f) (children n)) n)"

declare update_node.simps [simp del]

definition update_store :: "addr \<Rightarrow> (PlaylistTreeModelNode \<Rightarrow> PlaylistTreeModelNode) \<Rightarrow>
    Playlist \<Rightarrow> Playlist" where
  "update_store a f s = s\<lparr>entries := map (update_node a f) (entries s)\<rparr>"

definition notify :: "Notification \<Rightarrow> Playlist \<Rightarrow> Playlist" where
  "notify ev s = s\<lparr>notifications := notifications s @ [ev]\<rparr>"

section \<open>The playlist class\<close>

text \<open>The constructor: no entries, no active item, the author column hidden.\<close>

definition new_Playlist :: "bool \<Rightarrow> Playlist" where
  "new_Playlist opt =
     \<lparr>entries = [], activeItem = None, RepeatModeDefaultSubsong = opt,
      authorColumnHidden = True, placeholderLastHidden = False, nextAddr = 1,
      notifications = []\<rparr>"

definition RefreshAuthorColumnVisibility :: "Playlist \<Rightarrow> bool \<times> Playlist" where
  "RefreshAuthorColumnVisibility s =
     (let shouldHide =
            (if length (entries s) > 1
             then (let author' = author (hd (entries s))
                   in list_all (\<lambda>node. author node = author') (entries s))
             else True)
      in (shouldHide,
          if authorColumnHidden s \<noteq> shouldHide
          then notify ColumnsCountChanged
                 (s\<lparr>authorColumnHidden := shouldHide, placeholderLastHidden := \<not> shouldHide\<rparr>)
          else s))"

definition AddMainSong ::
  "Playlist \<Rightarrow> string \<Rightarrow> string \<Rightarrow> int \<Rightarrow> nat \<Rightarrow> string \<Rightarrow> RomRequirement \<Rightarrow> bool
    \<Rightarrow> addr \<times> Playlist" where
  "AddMainSong s title' filepath' defaultSubsong' duration' author' romRequirement' playable' =
     (let a = nextAddr s;
          s1 = s\<lparr>entries := entries s @
                  [new_PlaylistTreeModelNode a None title' filepath' defaultSubsong' duration'
                     author' romRequirement' playable'],
                nextAddr := Suc a\<rparr>;
          s2 = notify (ItemAdded None a) s1
      in (a, snd (RefreshAuthorColumnVisibility s2)))"

definition GetActiveSong :: "Playlist \<Rightarrow> addr option" where
  "GetActiveSong s = activeItem s"

definition Clear :: "Playlist \<Rightarrow> Playlist" where
  "Clear s =
     (let s1 = s\<lparr>activeItem := None\<rparr>;
          s2 = s1\<lparr>entries := []\<rparr>;
          s3 = notify Cleared s2
      in snd (RefreshAuthorColumnVisibility s3))"

text \<open>\<^verbatim>\<open>Remove\<close>: the item is looked for among the root entries only, by its address.\<close>

definition Remove :: "Playlist \<Rightarrow> addr \<Rightarrow> error + Playlist" where
  "Remove s item =
     (case deref s item of
        None \<Rightarrow> Inl InvalidReference
      | Some itemNode \<Rightarrow>
          (let parent' = GetParent itemNode in
           (case (case GetActiveSong s of
                    None \<Rightarrow> Inr s
                  | Some act \<Rightarrow>
                      (case deref s act of
                         None \<Rightarrow> Inl InvalidReference
                       | Some activeSong \<Rightarrow>
                           Inr (if filepath activeSong = filepath itemNode
                                then s\<lparr>activeItem := None\<rparr> else s))) of
              Inl e \<Rightarrow> Inl e
            | Inr s1 \<Rightarrow>
                (let it = find_if (\<lambda>qItemNode. addr qItemNode = item) (entries s1);
                     s2 = (if it \<noteq> length (entries s1)
                           then s1\<lparr>entries := erase it (entries s1)\<rparr> else s1);
                     s3 = notify (ItemDeleted parent' item) s2
                 in Inr (snd (RefreshAuthorColumnVisibility s3))))))"

text \<open>\<^verbatim>\<open>GetEffectiveInitialSubsong\<close>. The argument is read only; the result is a pointer to
  a node of the store (here the node), or null. The search for the first auto-playable
  subsong, which the source runs when the preferred subsong is null or not auto-playable,
  is the value \<open>firstPlayable\<close>.\<close>

definition GetEffectiveInitialSubsong ::
  "Playlist \<Rightarrow> PlaylistTreeModelNode \<Rightarrow> error + PlaylistTreeModelNode option" where
  "GetEffectiveInitialSubsong s mainSongItem =
     (if type mainSongItem \<noteq> Song then Inl AssertionFailure
      else if GetSubsongCount mainSongItem = 0
      then (if IsAutoPlayable mainSongItem then Inr (Some mainSongItem) else Inr None)
      else
        (let preferredStartSubsong =
               (if RepeatModeDefaultSubsong s then defaultSubsong mainSongItem else 1);
             preferredStartSubsongItem = GetSubsong_node mainSongItem preferredStartSubsong;
             firstPlayable =
               (let subsongs = GetChildren mainSongItem;
                    itSubsong = find_if IsAutoPlayable subsongs
                in if itSubsong = length subsongs then None else Some (subsongs ! itSubsong))
         in (case preferredStartSubsongItem of
               None \<Rightarrow> Inr firstPlayable
             | Some item \<Rightarrow> if IsAutoPlayable item then Inr (Some item) else Inr firstPlayable)))"

definition GetSong :: "Playlist \<Rightarrow> string \<Rightarrow> PlaylistTreeModelNode option" where
  "GetSong s filepath' =
     (let itTargetSong = find_if (\<lambda>songItem. filepath songItem = filepath') (entries s)
      in if itTargetSong = length (entries s) then None
         else Some (entries s ! itTargetSong))"

text \<open>\<^verbatim>\<open>GetNextSong\<close> with a starting song. The recursion of the source need not end, so
  the result is optional: the value \<open>None\<close> stands for a call that never returns.\<close>

partial_function (option) GetNextSong ::
  "Playlist \<Rightarrow> PlaylistTreeModelNode \<Rightarrow> (error + PlaylistTreeModelNode option) option" where
  "GetNextSong s fromSong =
     (let itCurrent = find_if (\<lambda>cSongNode. filepath cSongNode = filepath fromSong) (entries s)
      in if itCurrent = length (entries s) then Some (Inr None)
         else
           (let itNext = Suc itCurrent
            in if itNext = length (entries s) then Some (Inr None)
               else
                 (let nextSong = entries s ! itNext
                  in if IsAutoPlayable nextSong
                     then Some (GetEffectiveInitialSubsong s nextSong)
                     else GetNextSong s nextSong)))"

lemma find_if_le_length: "find_if P xs \<le> length xs"
  by (induction xs) auto

lemma find_if_le: "i < length xs \<Longrightarrow> P (xs ! i) \<Longrightarrow> find_if P xs \<le> i"
proof (induction xs arbitrary: i)
  case Nil
  then show ?case by simp
next
  case (Cons x xs)
  then show ?case by (cases i) auto
qed

text \<open>\<^verbatim>\<open>GetPrevSong\<close> with a starting song. Its recursion always ends: the position found
  for the starting song decreases with every call.\<close>

function GetPrevSong ::
  "Playlist \<Rightarrow> PlaylistTreeModelNode \<Rightarrow> error + PlaylistTreeModelNode option" where
  "GetPrevSong s fromSong =
     (let itCurrent = find_if (\<lambda>cSongNode. filepath cSongNode = filepath fromSong) (entries s)
      in if itCurrent = length (entries s) \<or> itCurrent = 0 then Inr None
         else
           (let prevSong = entries s ! (itCurrent - 1)
            in if IsAutoPlayable prevSong
               then GetEffectiveInitialSubsong s prevSong
               else GetPrevSong s prevSong))"
  by pat_completeness auto

termination
proof (relation "measure (\<lambda>(s, fromSong).
    find_if (\<lambda>cSongNode. filepath cSongNode = filepath fromSong) (entries s))")
  show "wf (measure (\<lambda>(s, fromSong).
    find_if (\<lambda>cSongNode. filepath cSongNode = filepath fromSong) (entries s)))"
    by simp
next
  fix s :: Playlist and fromSong itCurrent prevSong
  assume it: "itCurrent = find_if (\<lambda>cSongNode. filepath cSongNode = filepath fromSong) (entries s)"
    and inside: "\<not> (itCurrent = length (entries s) \<or> itCurrent = 0)"
    and prev: "prevSong = entries s ! (itCurrent - 1)"
  from it inside have "itCurrent < length (entries s)"
    using find_if_le_length [of "\<lambda>cSongNode. filepath cSongNode = filepath fromSong" "entries s"]
    by simp
  with inside have "itCurrent - 1 < length (entries s)" by simp
  then have "find_if (\<lambda>cSongNode. filepath cSongNode = filepath prevSong) (entries s)
      \<le> itCurrent - 1"
    unfolding prev by (rule find_if_le) simp
  with inside have "find_if (\<lambda>cSongNode. filepath cSongNode = filepath prevSong) (entries s)
      < itCurrent"
    by arith
  then show "((s, prevSong), (s, fromSong)) \<in> measure (\<lambda>(s, fromSong).
      find_if (\<lambda>cSongNode. filepath cSongNode = filepath fromSong) (entries s))"
    unfolding it by simp
qed

declare GetPrevSong.simps [simp del]

text \<open>\<^verbatim>\<open>wxString::Format\<close> with \<^verbatim>\<open>%i\<close>: an integer in decimal notation.\<close>

definition digit_char :: "nat \<Rightarrow> char" where
  "digit_char d = ''0123456789'' ! d"

fun decimal :: "nat \<Rightarrow> string" where
  "decimal n = (if n < 10 then [digit_char n] else decimal (n div 10) @ [digit_char (n mod 10)])"

declare decimal.simps [simp del]

definition format_int :: "int \<Rightarrow> string" where
  "format_int i = (if 0 \<le> i then decimal (nat i) else CHR ''-'' # decimal (nat (- i)))"

text \<open>Modelled from the spec: the constant \<^verbatim>\<open>Strings::PlaylistTree::SUBSONG\<close> of the
  header \<^verbatim>\<open>UIStrings.h\<close> (titles are "<parent title>: Subsong <n>").\<close>

definition SUBSONG :: string where
  "SUBSONG = ''Subsong''"

text \<open>One round of the loop of \<^verbatim>\<open>AddSubsongs\<close>: the node that is created for the parent
  \<open>p\<close> at the address \<open>a\<close>, with the icon it gets when it is the default subsong (the
  source sets the icon through the reference that \<^verbatim>\<open>AddChild\<close> returns, right after the
  node has joined the parent's children). The reads of the parent are reads of the node
  that the child is added to.\<close>

definition newChildNode :: "addr \<Rightarrow> int \<Rightarrow> nat \<Rightarrow> PlaylistTreeModelNode \<Rightarrow> PlaylistTreeModelNode" where
  "newChildNode a cnt duration' p =
     (let child = new_PlaylistTreeModelNode a (Some (addr p))
                    (''  '' @ title p @ '': '' @ SUBSONG @ '' '' @ format_int cnt)
                    (filepath p) cnt duration' [] (romRequirement p) (IsPlayable p)
      in if defaultSubsong p = cnt then SetIconId DefaultSubsongIndicator child else child)"

fun AddSubsongs_loop :: "addr \<Rightarrow> int \<Rightarrow> nat list \<Rightarrow> Playlist \<Rightarrow> Playlist" where
  "AddSubsongs_loop parent' cnt [] s = s"
| "AddSubsongs_loop parent' cnt (duration' # durations) s =
     (let cnt' = cnt + 1;
          a = nextAddr s;
          s1 = update_store parent' (\<lambda>p. AddChild (newChildNode a cnt' duration' p) p) s
      in AddSubsongs_loop parent' cnt' durations (s1\<lparr>nextAddr := Suc a\<rparr>))"

definition AddSubsongs :: "Playlist \<Rightarrow> nat list \<Rightarrow> addr \<Rightarrow> error + Playlist" where
  "AddSubsongs s durations parent' =
     (if length durations = 0 then Inr s
      else
        (case deref s parent' of
           None \<Rightarrow> Inl InvalidReference
         | Some _ \<Rightarrow> Inr (notify (ItemsAdded parent') (AddSubsongs_loop parent' 0 durations s))))"

text \<open>\<^verbatim>\<open>TrySetActiveSong\<close>: first the part that handles the old active node.\<close>

definition unhighlight_old :: "Playlist \<Rightarrow> bool \<Rightarrow> error + Playlist" where
  "unhighlight_old s autoexpand =
     (case activeItem s of
        None \<Rightarrow> Inr s
      | Some old \<Rightarrow>
          (case deref s old of
             None \<Rightarrow> Inl InvalidReference
           | Some oldNode \<Rightarrow>
               (let s1 = (if autoexpand \<and> type oldNode = Subsong
                          then notify (Collapse (GetParent oldNode)) s else s);
                    s2 = update_store old ResetItemAttr s1
                in (case GetParent oldNode of
                      None \<Rightarrow> Inr s2
                    | Some parent' \<Rightarrow> Inr (update_store parent' ResetItemAttr s2)))))"

definition TrySetActiveSong :: "Playlist \<Rightarrow> addr \<Rightarrow> bool \<Rightarrow> error + bool \<times> Playlist" where
  "TrySetActiveSong s node autoexpand =
     (case deref s node of
        None \<Rightarrow> Inl InvalidReference
      | Some n \<Rightarrow>
          if \<not> IsPlayable n then Inr (False, s)
          else
            (case unhighlight_old s autoexpand of
               Inl e \<Rightarrow> Inl e
             | Inr s1 \<Rightarrow>
                 (let s2 = s1\<lparr>activeItem := Some node\<rparr>;
                      s3 = update_store node (SetBold True) s2
                  in (case (if type n = Subsong
                            then (case GetParent n of
                                    None \<Rightarrow> Inl InvalidReference
                                  | Some parent' \<Rightarrow>
                                      Inr (update_store parent'
                                             (\<lambda>p. SetColour SystemHotlight (SetBold True p)) s3))
                            else Inr s3) of
                        Inl e \<Rightarrow> Inl e
                      | Inr s4 \<Rightarrow>
                          (let s5 = (if autoexpand \<and> type n = Subsong
                                     then notify (Expand (GetParent n)) s4 else s4)
                           in Inr (True, notify Refresh s5))))))"

text \<open>\<^verbatim>\<open>SetItemTag\<close>: what is written to the node once the guard has let the call pass.\<close>

definition apply_tag :: "ItemTag \<Rightarrow> bool \<Rightarrow> bool \<Rightarrow> PlaylistTreeModelNode \<Rightarrow> PlaylistTreeModelNode" where
  "apply_tag tag' force itemIsDefaultSubsong n =
     (let n1 = SetTag tag' n;
          n2 = (if force then ResetItemAttr n1 else n1)
      in (case tag' of
            Normal \<Rightarrow>
              (let nodeIconId = (if itemIsDefaultSubsong then DefaultSubsongIndicator else NoIcon);
                   n3 = SetIconId nodeIconId n2
               in if romRequirement n3 \<noteq> RomNone
                  then
                    (let n4 = (if type n3 = Song then SetIconId ChipIcon n3 else n3)
                     in if \<not> IsPlayable n4
                        then
                          (let col = (if romRequirement n4 = BasicRom
                                      then ColourName ''#054a80'' else ColourName ''#8a5454'');
                               n5 = SetStrikethrough True (SetColour col n4)
                           in set_children
                                (map (\<lambda>subnode. SetStrikethrough True (SetColour col subnode))
                                   (GetChildren n5)) n5)
                        else n4)
                  else n3)
          | ShortDuration \<Rightarrow> SetIconId SkipShort n2
          | Blacklisted \<Rightarrow> SetIconId RemoveSong n2))"

definition SetItemTag :: "Playlist \<Rightarrow> addr \<Rightarrow> ItemTag \<Rightarrow> bool \<Rightarrow> error + Playlist" where
  "SetItemTag s node tag' force =
     (case deref s node of
        None \<Rightarrow> Inl InvalidReference
      | Some n \<Rightarrow>
          if \<not> force \<and> \<not> IsPlayable n then Inr s
          else
            (case (if tag' = Normal \<and> type n = Subsong
                   then (case GetParent n of
                           None \<Rightarrow> Inl InvalidReference
                         | Some parent' \<Rightarrow>
                             (case deref s parent' of
                                None \<Rightarrow> Inl InvalidReference
                              | Some p \<Rightarrow> Inr (defaultSubsong n = defaultSubsong p)))
                   else Inr False) of
               Inl e \<Rightarrow> Inl e
             | Inr itemIsDefaultSubsong \<Rightarrow>
                 Inr (notify (ItemChanged node)
                        (update_store node (apply_tag tag' force itemIsDefaultSubsong) s))))"

section \<open>The invariant of the store and of the active item\<close>

text \<open>
  The nodes of the store have pairwise different addresses, all below the next address
  of the allocator, and every node has the file path of the song it belongs to. The
  active item is a single optional reference; when it is set, it is the address of a
  node of the store.
\<close>

definition store_inv :: "Playlist \<Rightarrow> bool" where
  "store_inv s \<longleftrightarrow>
     distinct (map addr (all_nodes s)) \<and>
     (\<forall>n \<in> set (all_nodes s). addr n < nextAddr s) \<and>
     (\<forall>e \<in> set (entries s). \<forall>n \<in> set (nodes_of e). filepath n = filepath e)"

definition active_inv :: "Playlist \<Rightarrow> bool" where
  "active_inv s \<longleftrightarrow>
     (case activeItem s of None \<Rightarrow> True | Some a \<Rightarrow> a \<in> addr ` set (all_nodes s))"

definition invariant :: "Playlist \<Rightarrow> bool" where
  "invariant s \<longleftrightarrow> store_inv s \<and> active_inv s"

text \<open>The operations of the class that change the model, and runs of them. A reference
  that is handed to an operation and is not in the store ends the run with an error.\<close>

datatype operation =
    OpAddMainSong string string int nat string RomRequirement bool
  | OpAddSubsongs "nat list" addr
  | OpRemove addr
  | OpClear
  | OpRefreshAuthorColumnVisibility
  | OpTrySetActiveSong addr bool
  | OpSetItemTag addr ItemTag bool

fun run :: "Playlist \<Rightarrow> operation \<Rightarrow> error + Playlist" where
  "run s (OpAddMainSong ti fp ds du au rr pl) = Inr (snd (AddMainSong s ti fp ds du au rr pl))"
| "run s (OpAddSubsongs durations parent') = AddSubsongs s durations parent'"
| "run s (OpRemove item) = Remove s item"
| "run s OpClear = Inr (Clear s)"
| "run s OpRefreshAuthorColumnVisibility = Inr (snd (RefreshAuthorColumnVisibility s))"
| "run s (OpTrySetActiveSong node autoexpand) =
     (case TrySetActiveSong s node autoexpand of Inl e \<Rightarrow> Inl e | Inr (b, s') \<Rightarrow> Inr s')"
| "run s (OpSetItemTag node tag' force) = SetItemTag s node tag' force"

fun run_all :: "Playlist \<Rightarrow> operation list \<Rightarrow> error + Playlist" where
  "run_all s [] = Inr s"
| "run_all s (op # ops) = (case run s op of Inl e \<Rightarrow> Inl e | Inr s' \<Rightarrow> run_all s' ops)"

section \<open>Auxiliary definitions for the proofs\<close>

text \<open>The subsongs that the loop of \<^verbatim>\<open>AddSubsongs\<close> creates for a parent \<open>p\<close>, starting at
  the address \<open>a\<close> and after the count \<open>cnt\<close>.\<close>

fun subsong_nodes :: "addr \<Rightarrow> int \<Rightarrow> nat list \<Rightarrow> PlaylistTreeModelNode \<Rightarrow> PlaylistTreeModelNode list" where
  "subsong_nodes a cnt [] p = []"
| "subsong_nodes a cnt (d # ds) p = newChildNode a (cnt + 1) d p # subsong_nodes (Suc a) (cnt + 1) ds p"

text \<open>The addresses and file paths of the nodes of a subtree, the root first.\<close>

definition ids :: "PlaylistTreeModelNode \<Rightarrow> (addr \<times> string) list" where
  "ids n = map (\<lambda>m. (addr m, filepath m)) (nodes_of n)"

section \<open>The author column predicate, as the specification words it\<close>

text \<open>The predicate of the specification: fewer than two songs, or every song has the
  author of the first song.\<close>

definition author_column_hide_spec :: "PlaylistTreeModelNode list \<Rightarrow> bool" where
  "author_column_hide_spec songs \<longleftrightarrow>
     length songs < 2 \<or> (\<forall>n \<in> set songs. author n = author (hd songs))"

section \<open>Example states\<close>

text \<open>Two songs by different authors, added to an empty playlist.\<close>

definition two_authors :: Playlist where
  "two_authors =
     snd (AddMainSong (snd (AddMainSong (new_Playlist False)
            ''Commando'' ''commando.sid'' 1 180 ''Rob Hubbard'' RomNone True))
        ''Cybernoid'' ''cybernoid.sid'' 1 200 ''Jeroen Tel'' RomNone True)"

text \<open>A playable song and a song that is not playable; then three subsongs for the
  first song; then one of the nodes made the active one.\<close>

definition demo_songs :: Playlist where
  "demo_songs =
     snd (AddMainSong (snd (AddMainSong (new_Playlist False)
            ''Commando'' ''commando.sid'' 1 180 ''Rob Hubbard'' RomNone True))
        ''Cybernoid'' ''cybernoid.sid'' 1 200 ''Jeroen Tel'' BasicRom False)"

definition demo_subsongs :: Playlist where
  "demo_subsongs =
     (case AddSubsongs demo_songs [60, 70, 80] 1 of Inr s \<Rightarrow> s | Inl e \<Rightarrow> demo_songs)"

definition demo_active :: "addr \<Rightarrow> Playlist" where
  "demo_active a =
     (case TrySetActiveSong demo_subsongs a True of
        Inr (b, s) \<Rightarrow> s
      | Inl e \<Rightarrow> demo_subsongs)"

text \<open>A song with three subsongs, the first of them tagged ShortDuration; the option
  "prefer the default subsong" and the default subsong of the song are parameters.\<close>

definition demo_resolution :: "bool \<Rightarrow> int \<Rightarrow> Playlist" where
  "demo_resolution opt dflt =
     (let (a, s1) = AddMainSong (new_Playlist opt) ''Commando'' ''commando.sid'' dflt 180
                      ''Rob Hubbard'' RomNone True
      in (case AddSubsongs s1 [60, 70, 80] a of
            Inl e \<Rightarrow> s1
          | Inr s2 \<Rightarrow> (case SetItemTag s2 (a + 1) ShortDuration False of
                         Inl e \<Rightarrow> s2
                       | Inr s3 \<Rightarrow> s3)))"

text \<open>The first song tagged Blacklisted by a forced call.\<close>

definition demo_blacklisted :: Playlist where
  "demo_blacklisted =
     (case SetItemTag demo_songs 1 Blacklisted True of Inr s \<Rightarrow> s | Inl e \<Rightarrow> demo_songs)"

text \<open>Three songs with different file paths: playable, not playable, playable.\<close>

definition demo_abc :: Playlist where
  "demo_abc =
     snd (AddMainSong (snd (AddMainSong (snd (AddMainSong (new_Playlist False)
            ''Commando'' ''commando.sid'' 1 180 ''Rob Hubbard'' RomNone True))
        ''Cybernoid'' ''cybernoid.sid'' 1 200 ''Jeroen Tel'' BasicRom False))
        ''Delta'' ''delta.sid'' 1 240 ''Rob Hubbard'' RomNone True)"

text \<open>Three songs, the third with the file path of the first.\<close>

definition demo_repeat :: Playlist where
  "demo_repeat =
     snd (AddMainSong (snd (AddMainSong (snd (AddMainSong (new_Playlist False)
            ''Commando'' ''commando.sid'' 1 180 ''Rob Hubbard'' RomNone True))
        ''Cybernoid'' ''cybernoid.sid'' 1 200 ''Jeroen Tel'' BasicRom False))
        ''Commando'' ''commando.sid'' 1 180 ''Rob Hubbard'' RomNone True)"

text \<open>The three songs with different file paths; the first song has two subsongs and is
  tagged ShortDuration: it is playable, and not auto-playable.\<close>

definition demo_short :: Playlist where
  "demo_short =
     (case AddSubsongs demo_abc [60, 70] 1 of
        Inl e \<Rightarrow> demo_abc
      | Inr s \<Rightarrow> (case SetItemTag s 1 ShortDuration False of Inl e \<Rightarrow> s | Inr s' \<Rightarrow> s'))"

text \<open>Two songs with the same file path, the second one not playable.\<close>

definition demo_duplicates :: Playlist where
  "demo_duplicates =
     snd (AddMainSong (snd (AddMainSong (new_Playlist False)
            ''Commando'' ''commando.sid'' 1 180 ''Rob Hubbard'' RomNone True))
        ''Commando'' ''commando.sid'' 1 180 ''Rob Hubbard'' RomNone False)"

text \<open>The operations that build the state \<open>demo_active 4\<close>.\<close>

definition demo_operations :: "operation list" where
  "demo_operations =
     [OpAddMainSong ''Commando'' ''commando.sid'' 1 180 ''Rob Hubbard'' RomNone True,
      OpAddMainSong ''Cybernoid'' ''cybernoid.sid'' 1 200 ''Jeroen Tel'' BasicRom False,
      OpAddSubsongs [60, 70, 80] 1,
      OpTrySetActiveSong 4 True]"

section \<open>Basic facts about the node class and the store\<close>

lemma set_children_sel [simp]:
  "addr (set_children ch n) = addr n" "type (set_children ch n) = type n"
  "title (set_children ch n) = title n" "filepath (set_children ch n) = filepath n"
  "defaultSubsong (set_children ch n) = defaultSubsong n"
  "duration (set_children ch n) = duration n" "author (set_children ch n) = author n"
  "romRequirement (set_children ch n) = romRequirement n"
  "parent (set_children ch n) = parent n" "children (set_children ch n) = ch"
  "playable (set_children ch n) = playable n" "tag (set_children ch n) = tag n"
  "iconId (set_children ch n) = iconId n" "itemAttr (set_children ch n) = itemAttr n"
  by (cases n; simp add: set_children_def)+

lemma set_itemAttr_sel [simp]:
  "addr (set_itemAttr at n) = addr n" "type (set_itemAttr at n) = type n"
  "title (set_itemAttr at n) = title n" "filepath (set_itemAttr at n) = filepath n"
  "defaultSubsong (set_itemAttr at n) = defaultSubsong n"
  "duration (set_itemAttr at n) = duration n" "author (set_itemAttr at n) = author n"
  "romRequirement (set_itemAttr at n) = romRequirement n"
  "parent (set_itemAttr at n) = parent n" "children (set_itemAttr at n) = children n"
  "playable (set_itemAttr at n) = playable n" "tag (set_itemAttr at n) = tag n"
  "iconId (set_itemAttr at n) = iconId n" "itemAttr (set_itemAttr at n) = at"
  by (cases n; simp add: set_itemAttr_def)+

lemma SetTag_sel [simp]:
  "addr (SetTag tg n) = addr n" "type (SetTag tg n) = type n"
  "title (SetTag tg n) = title n" "filepath (SetTag tg n) = filepath n"
  "defaultSubsong (SetTag tg n) = defaultSubsong n"
  "duration (SetTag tg n) = duration n" "author (SetTag tg n) = author n"
  "romRequirement (SetTag tg n) = romRequirement n"
  "parent (SetTag tg n) = parent n" "children (SetTag tg n) = children n"
  "playable (SetTag tg n) = playable n" "tag (SetTag tg n) = tg"
  "iconId (SetTag tg n) = iconId n" "itemAttr (SetTag tg n) = itemAttr n"
  by (cases n; simp add: SetTag_def)+

lemma SetIconId_sel [simp]:
  "addr (SetIconId ic n) = addr n" "type (SetIconId ic n) = type n"
  "title (SetIconId ic n) = title n" "filepath (SetIconId ic n) = filepath n"
  "defaultSubsong (SetIconId ic n) = defaultSubsong n"
  "duration (SetIconId ic n) = duration n" "author (SetIconId ic n) = author n"
  "romRequirement (SetIconId ic n) = romRequirement n"
  "parent (SetIconId ic n) = parent n" "children (SetIconId ic n) = children n"
  "playable (SetIconId ic n) = playable n" "tag (SetIconId ic n) = tag n"
  "iconId (SetIconId ic n) = ic" "itemAttr (SetIconId ic n) = itemAttr n"
  by (cases n; simp add: SetIconId_def)+

lemma new_PlaylistTreeModelNode_sel [simp]:
  "addr (new_PlaylistTreeModelNode a pa ti fp ds du au rr pl) = a"
  "type (new_PlaylistTreeModelNode a pa ti fp ds du au rr pl) = (if pa = None then Song else Subsong)"
  "title (new_PlaylistTreeModelNode a pa ti fp ds du au rr pl) = ti"
  "filepath (new_PlaylistTreeModelNode a pa ti fp ds du au rr pl) = fp"
  "defaultSubsong (new_PlaylistTreeModelNode a pa ti fp ds du au rr pl) = ds"
  "duration (new_PlaylistTreeModelNode a pa ti fp ds du au rr pl) = du"
  "author (new_PlaylistTreeModelNode a pa ti fp ds du au rr pl) = au"
  "romRequirement (new_PlaylistTreeModelNode a pa ti fp ds du au rr pl) = rr"
  "parent (new_PlaylistTreeModelNode a pa ti fp ds du au rr pl) = pa"
  "children (new_PlaylistTreeModelNode a pa ti fp ds du au rr pl) = []"
  "playable (new_PlaylistTreeModelNode a pa ti fp ds du au rr pl) = pl"
  "tag (new_PlaylistTreeModelNode a pa ti fp ds du au rr pl) = Normal"
  "iconId (new_PlaylistTreeModelNode a pa ti fp ds du au rr pl) = NoIcon"
  "itemAttr (new_PlaylistTreeModelNode a pa ti fp ds du au rr pl) = defaultItemAttr"
  by (simp_all add: new_PlaylistTreeModelNode_def)

lemma notify_sel [simp]:
  "entries (notify ev s) = entries s" "activeItem (notify ev s) = activeItem s"
  "RepeatModeDefaultSubsong (notify ev s) = RepeatModeDefaultSubsong s"
  "authorColumnHidden (notify ev s) = authorColumnHidden s"
  "placeholderLastHidden (notify ev s) = placeholderLastHidden s"
  "nextAddr (notify ev s) = nextAddr s"
  "notifications (notify ev s) = notifications s @ [ev]"
  by (simp_all add: notify_def)

lemma RefreshAuthorColumnVisibility_frame [simp]:
  "entries (snd (RefreshAuthorColumnVisibility s)) = entries s"
  "activeItem (snd (RefreshAuthorColumnVisibility s)) = activeItem s"
  "RepeatModeDefaultSubsong (snd (RefreshAuthorColumnVisibility s)) = RepeatModeDefaultSubsong s"
  "nextAddr (snd (RefreshAuthorColumnVisibility s)) = nextAddr s"
  by (simp_all add: RefreshAuthorColumnVisibility_def Let_def)

lemma RefreshAuthorColumnVisibility_hidden:
  "authorColumnHidden (snd (RefreshAuthorColumnVisibility s)) = fst (RefreshAuthorColumnVisibility s)"
  by (auto simp: RefreshAuthorColumnVisibility_def Let_def)

lemma RefreshAuthorColumnVisibility_result:
  "fst (RefreshAuthorColumnVisibility s) =
     (length (entries s) < 2 \<or> (\<forall>n \<in> set (entries s). author n = author (hd (entries s))))"
  by (auto simp: RefreshAuthorColumnVisibility_def Let_def list_all_iff)

lemma all_nodes_frame [simp]:
  "all_nodes (notify ev s) = all_nodes s"
  "all_nodes (snd (RefreshAuthorColumnVisibility s)) = all_nodes s"
  "all_nodes (s\<lparr>activeItem := x\<rparr>) = all_nodes s"
  "all_nodes (s\<lparr>nextAddr := y\<rparr>) = all_nodes s"
  by (simp_all add: all_nodes_def)

lemma deref_frame [simp]:
  "deref (notify ev s) a = deref s a"
  "deref (snd (RefreshAuthorColumnVisibility s)) a = deref s a"
  "deref (s\<lparr>activeItem := x\<rparr>) a = deref s a"
  "deref (s\<lparr>nextAddr := y\<rparr>) a = deref s a"
  by (simp_all add: deref_def)

lemma find_if_find:
  "(if find_if P xs = length xs then None else Some (xs ! find_if P xs)) = find P xs"
  by (induction xs) auto

lemma find_app:
  "find P (xs @ ys) = (case find P xs of None \<Rightarrow> find P ys | Some x \<Rightarrow> Some x)"
  by (induction xs) auto

lemma find_concat_map_option:
  assumes "\<And>x. x \<in> set xs \<Longrightarrow> find P (g x) = map_option f (find P (h x))"
  shows "find P (concat (map g xs)) = map_option f (find P (concat (map h xs)))"
  using assms by (induction xs) (auto simp: find_app split: option.splits)

lemma find_nodes_of_update_node:
  assumes "\<And>m. addr m = a \<Longrightarrow> addr (f m) = a"
  shows "find (\<lambda>m. addr m = a) (nodes_of (update_node a f n)) =
      map_option f (find (\<lambda>m. addr m = a) (nodes_of n))"
proof (induction n rule: nodes_of.induct)
  case (1 n)
  show ?case
  proof (cases "addr n = a")
    case True
    then show ?thesis
      using assms [of n]
      by (simp add: update_node.simps nodes_of.simps [of n] nodes_of.simps [of "f n"])
  next
    case False
    have "find (\<lambda>m. addr m = a) (concat (map (\<lambda>c. nodes_of (update_node a f c)) (children n))) =
        map_option f (find (\<lambda>m. addr m = a) (concat (map nodes_of (children n))))"
      by (rule find_concat_map_option) (rule 1)
    with False show ?thesis
      by (simp add: update_node.simps [of a f n] nodes_of.simps [of n]
          nodes_of.simps [of "set_children ch n" for ch] comp_def)
  qed
qed

lemma deref_update_store:
  assumes "\<And>m. addr m = a \<Longrightarrow> addr (f m) = a"
  shows "deref (update_store a f s) a = map_option f (deref s a)"
  unfolding deref_def all_nodes_def update_store_def
  using find_concat_map_option [of "entries s" "\<lambda>m. addr m = a"
      "\<lambda>c. nodes_of (update_node a f c)" f nodes_of]
    find_nodes_of_update_node [of a f, OF assms]
  by (simp add: comp_def)

lemma find_if_first: "j < find_if P xs \<Longrightarrow> \<not> P (xs ! j)"
proof (induction xs arbitrary: j)
  case Nil
  then show ?case by simp
next
  case (Cons x xs)
  then show ?case by (cases j) (auto split: if_splits)
qed

lemma find_if_less: "x \<in> set xs \<Longrightarrow> P x \<Longrightarrow> find_if P xs < length xs"
  by (induction xs) auto

section \<open>The author column\<close>

text \<open>
  Claim C9. \<^verbatim>\<open>RefreshAuthorColumnVisibility\<close> returns, and leaves in the hidden flag of the
  author column, the value of the predicate on the current song list: true exactly when
  there are fewer than two songs or every song has the author of the first one. It does
  not change the song list, and \<^verbatim>\<open>AddMainSong\<close>, \<^verbatim>\<open>Remove\<close> and \<^verbatim>\<open>Clear\<close> all end with
  it, so that after each of them the flag is the predicate of the song list they leave.
\<close>

theorem author_column_hide_predicate:
  "fst (RefreshAuthorColumnVisibility s) = author_column_hide_spec (entries s)
   \<and> authorColumnHidden (snd (RefreshAuthorColumnVisibility s)) =
       author_column_hide_spec (entries s)
   \<and> entries (snd (RefreshAuthorColumnVisibility s)) = entries s
   \<and> authorColumnHidden (snd (AddMainSong s ti fp ds du au rr pl)) =
       author_column_hide_spec (entries (snd (AddMainSong s ti fp ds du au rr pl)))
   \<and> (\<forall>s'. Remove s item = Inr s' \<longrightarrow>
         authorColumnHidden s' = author_column_hide_spec (entries s'))
   \<and> authorColumnHidden (Clear s) = author_column_hide_spec (entries (Clear s))"
proof -
  have hidden: "authorColumnHidden (snd (RefreshAuthorColumnVisibility t)) =
      author_column_hide_spec (entries (snd (RefreshAuthorColumnVisibility t)))" for t
    by (simp add: RefreshAuthorColumnVisibility_hidden RefreshAuthorColumnVisibility_result
        author_column_hide_spec_def)
  have add: "authorColumnHidden (snd (AddMainSong s ti fp ds du au rr pl)) =
       author_column_hide_spec (entries (snd (AddMainSong s ti fp ds du au rr pl)))"
    unfolding AddMainSong_def Let_def snd_conv by (rule hidden)
  have clear: "authorColumnHidden (Clear s) = author_column_hide_spec (entries (Clear s))"
    unfolding Clear_def Let_def by (rule hidden)
  have remove: "authorColumnHidden s' = author_column_hide_spec (entries s')"
    if "Remove s item = Inr s'" for s'
  proof -
    from that obtain t where "s' = snd (RefreshAuthorColumnVisibility t)"
      by (auto simp: Remove_def Let_def split: option.splits sum.splits if_splits)
    then show ?thesis by (simp only: hidden)
  qed
  show ?thesis
    using add clear remove
    by (simp add: RefreshAuthorColumnVisibility_hidden RefreshAuthorColumnVisibility_result
        author_column_hide_spec_def)
qed

theorem author_column_hide_witness:
  "authorColumnHidden two_authors = False
   \<and> (case Remove two_authors 2 of
        Inl e \<Rightarrow> False
      | Inr s' \<Rightarrow> length (entries s') = 1 \<and> authorColumnHidden s' = True)"
proof -
  have "authorColumnHidden two_authors = author_column_hide_spec (entries two_authors)"
    unfolding two_authors_def using author_column_hide_predicate by blast
  moreover have "author_column_hide_spec (entries two_authors) = False"
    by code_simp
  moreover have "\<exists>s'. Remove two_authors 2 = Inr s' \<and> length (entries s') = 1"
    by (simp add: two_authors_def AddMainSong_def new_Playlist_def Remove_def deref_def
        all_nodes_def nodes_of.simps Let_def GetParent_def GetActiveSong_def erase_def)
  then obtain s' where r: "Remove two_authors 2 = Inr s'" "length (entries s') = 1"
    by blast
  moreover have "authorColumnHidden s' = author_column_hide_spec (entries s')"
    using author_column_hide_predicate r by blast
  moreover have "author_column_hide_spec (entries s')"
    using r by (simp add: author_column_hide_spec_def)
  ultimately show ?thesis by simp
qed

section \<open>Refusals: entries that are not playable\<close>

text \<open>
  Claim C5. For an entry \<open>e\<close> of the store that is not playable, and for either value of
  \<open>autoExpand\<close>, \<^verbatim>\<open>TrySetActiveSong\<close> returns false and the state after the call is the
  state before it: the active item, every tag, every attribute, and the calls made to the
  base control are the same.
\<close>

theorem TrySetActiveSong_not_playable:
  "deref s e = Some n \<Longrightarrow> \<not> IsPlayable n \<Longrightarrow>
     TrySetActiveSong s e autoExpand = Inr (False, s)"
  by (simp add: TrySetActiveSong_def)

theorem TrySetActiveSong_not_playable_witness:
  "deref demo_subsongs 2 = Some (entries demo_subsongs ! 1)
   \<and> \<not> IsPlayable (entries demo_subsongs ! 1)
   \<and> TrySetActiveSong demo_subsongs 2 True = Inr (False, demo_subsongs)
   \<and> TrySetActiveSong demo_subsongs 2 False = Inr (False, demo_subsongs)"
proof -
  have d: "deref demo_subsongs 2 = Some (entries demo_subsongs ! 1)"
    by code_simp
  have p: "\<not> IsPlayable (entries demo_subsongs ! 1)"
    by code_simp
  show ?thesis
    using d p TrySetActiveSong_not_playable [OF d p] by simp
qed

text \<open>
  Claim C8. For an entry \<open>e\<close> of the store that is not playable and any tag \<open>t\<close>,
  \<^verbatim>\<open>SetItemTag\<close> without force returns with the state unchanged: the tag, the icon and
  the attribute of \<open>e\<close> (and of every other node) are as before.
\<close>

theorem SetItemTag_not_playable_noop:
  "deref s e = Some n \<Longrightarrow> \<not> IsPlayable n \<Longrightarrow> SetItemTag s e t False = Inr s"
  by (simp add: SetItemTag_def)

theorem SetItemTag_not_playable_noop_witness:
  "deref demo_songs 2 = Some (entries demo_songs ! 1)
   \<and> \<not> IsPlayable (entries demo_songs ! 1)
   \<and> tag (entries demo_songs ! 1) = Normal
   \<and> SetItemTag demo_songs 2 Blacklisted False = Inr demo_songs"
proof -
  have d: "deref demo_songs 2 = Some (entries demo_songs ! 1)"
    by code_simp
  have p: "\<not> IsPlayable (entries demo_songs ! 1)"
    by code_simp
  have t: "tag (entries demo_songs ! 1) = Normal"
    by code_simp
  show ?thesis
    using d p t SetItemTag_not_playable_noop [OF d p] by simp
qed

section \<open>Removal and the active item\<close>

text \<open>
  Claim C10. \<^verbatim>\<open>Remove\<close> of an entry \<open>e\<close> unsets the active item exactly when the active
  entry has the file path of \<open>e\<close>, whether or not it is \<open>e\<close> itself; when the file paths
  differ the active item stays as it was.
\<close>

theorem Remove_unsets_active_by_filepath:
  "deref s e = Some n \<Longrightarrow> activeItem s = Some a \<Longrightarrow> deref s a = Some act \<Longrightarrow>
     \<exists>s'. Remove s e = Inr s' \<and>
          GetActiveSong s' = (if filepath act = filepath n then None else Some a)"
  by (simp add: Remove_def GetActiveSong_def Let_def)

text \<open>Removing subsong 1 while subsong 2 is active, removing subsong 1 while the song is
  active, and removing the other song while subsong 2 is active.\<close>

theorem Remove_unsets_active_by_filepath_witness:
  "(\<exists>s'. Remove (demo_active 4) 3 = Inr s' \<and> GetActiveSong s' = None)
   \<and> (\<exists>s'. Remove (demo_active 1) 3 = Inr s' \<and> GetActiveSong s' = None)
   \<and> (\<exists>s'. Remove (demo_active 4) 2 = Inr s' \<and> GetActiveSong s' = Some 4)"
proof -
  have a4: "activeItem (demo_active 4) = Some 4" and a1: "activeItem (demo_active 1) = Some 1"
    by code_simp+
  have d3: "deref (demo_active 4) 3 = Some (children (entries (demo_active 4) ! 0) ! 0)"
    and d4: "deref (demo_active 4) 4 = Some (children (entries (demo_active 4) ! 0) ! 1)"
    and d2: "deref (demo_active 4) 2 = Some (entries (demo_active 4) ! 1)"
    and e3: "deref (demo_active 1) 3 = Some (children (entries (demo_active 1) ! 0) ! 0)"
    and e1: "deref (demo_active 1) 1 = Some (entries (demo_active 1) ! 0)"
    by code_simp+
  have f1: "filepath (children (entries (demo_active 4) ! 0) ! 1) =
      filepath (children (entries (demo_active 4) ! 0) ! 0)"
    and f2: "filepath (entries (demo_active 1) ! 0) =
      filepath (children (entries (demo_active 1) ! 0) ! 0)"
    and f3: "filepath (children (entries (demo_active 4) ! 0) ! 1) \<noteq>
      filepath (entries (demo_active 4) ! 1)"
    by code_simp+
  show ?thesis
    using Remove_unsets_active_by_filepath [OF d3 a4 d4]
      Remove_unsets_active_by_filepath [OF e3 a1 e1]
      Remove_unsets_active_by_filepath [OF d2 a4 d4] f1 f2 f3
    by simp
qed

section \<open>The effective initial subsong\<close>

text \<open>
  Claim C3. For a song entry, \<^verbatim>\<open>GetEffectiveInitialSubsong\<close> returns: for a song
  without subsongs, the song itself when it is auto-playable and null otherwise; for a
  song with subsongs, with the preferred start index being the song's default subsong
  when the option is enabled and 1 otherwise, the subsong at the preferred index when it
  exists and is auto-playable, and otherwise the first auto-playable subsong in the order
  of the child collection, or null when no subsong is auto-playable.
\<close>

theorem GetEffectiveInitialSubsong_resolution:
  "type node = Song \<Longrightarrow>
   GetEffectiveInitialSubsong s node =
     Inr (let preferred = (if RepeatModeDefaultSubsong s then defaultSubsong node else 1)
          in if children node = [] then (if IsAutoPlayable node then Some node else None)
             else if 1 \<le> preferred \<and> preferred \<le> int (length (children node))
                     \<and> IsAutoPlayable (children node ! nat (preferred - 1))
             then Some (children node ! nat (preferred - 1))
             else find IsAutoPlayable (children node))"
  using find_if_find [of IsAutoPlayable "children node"]
  by (auto simp: GetEffectiveInitialSubsong_def GetSubsongCount_def GetSubsong_node_def
      GetChildren_def Let_def split: option.splits)


text \<open>The two examples of the claim: subsong 1 is not auto-playable, subsongs 2 and 3
  are. With the option disabled and default subsong 1 the result is subsong 2; with the
  option enabled and default subsong 3 the result is subsong 3.\<close>

theorem GetEffectiveInitialSubsong_resolution_witness:
  "type (entries (demo_resolution False 1) ! 0) = Song
   \<and> map IsAutoPlayable (children (entries (demo_resolution False 1) ! 0)) = [False, True, True]
   \<and> map defaultSubsong (children (entries (demo_resolution False 1) ! 0)) = [1, 2, 3]
   \<and> GetEffectiveInitialSubsong (demo_resolution False 1) (entries (demo_resolution False 1) ! 0)
       = Inr (Some (children (entries (demo_resolution False 1) ! 0) ! 1))
   \<and> type (entries (demo_resolution True 3) ! 0) = Song
   \<and> map IsAutoPlayable (children (entries (demo_resolution True 3) ! 0)) = [False, True, True]
   \<and> GetEffectiveInitialSubsong (demo_resolution True 3) (entries (demo_resolution True 3) ! 0)
       = Inr (Some (children (entries (demo_resolution True 3) ! 0) ! 2))"
proof -
  let ?s = "demo_resolution False 1" and ?t = "demo_resolution True 3"
  have ty: "type (entries ?s ! 0) = Song" "type (entries ?t ! 0) = Song"
    by code_simp+
  have au: "map IsAutoPlayable (children (entries ?s ! 0)) = [False, True, True]"
    "map IsAutoPlayable (children (entries ?t ! 0)) = [False, True, True]"
    "map defaultSubsong (children (entries ?s ! 0)) = [1, 2, 3]"
    by code_simp+
  have r1: "(let preferred = (if RepeatModeDefaultSubsong ?s then defaultSubsong (entries ?s ! 0) else 1)
          in if children (entries ?s ! 0) = [] then (if IsAutoPlayable (entries ?s ! 0) then Some (entries ?s ! 0) else None)
             else if 1 \<le> preferred \<and> preferred \<le> int (length (children (entries ?s ! 0)))
                     \<and> IsAutoPlayable (children (entries ?s ! 0) ! nat (preferred - 1))
             then Some (children (entries ?s ! 0) ! nat (preferred - 1))
             else find IsAutoPlayable (children (entries ?s ! 0))) = Some (children (entries ?s ! 0) ! 1)"
    by code_simp
  have r2: "(let preferred = (if RepeatModeDefaultSubsong ?t then defaultSubsong (entries ?t ! 0) else 1)
          in if children (entries ?t ! 0) = [] then (if IsAutoPlayable (entries ?t ! 0) then Some (entries ?t ! 0) else None)
             else if 1 \<le> preferred \<and> preferred \<le> int (length (children (entries ?t ! 0)))
                     \<and> IsAutoPlayable (children (entries ?t ! 0) ! nat (preferred - 1))
             then Some (children (entries ?t ! 0) ! nat (preferred - 1))
             else find IsAutoPlayable (children (entries ?t ! 0))) = Some (children (entries ?t ! 0) ! 2)"
    by code_simp
  show ?thesis
    using GetEffectiveInitialSubsong_resolution [OF ty(1), of ?s]
      GetEffectiveInitialSubsong_resolution [OF ty(2), of ?t]
    unfolding r1 r2 using ty au by simp
qed

section \<open>Adding subsongs\<close>

lemma length_subsong_nodes [simp]: "length (subsong_nodes a cnt ds p) = length ds"
  by (induction ds arbitrary: a cnt) auto

lemma nth_subsong_nodes:
  "i < length ds \<Longrightarrow>
     subsong_nodes a cnt ds p ! i = newChildNode (a + i) (cnt + 1 + int i) (ds ! i) p"
proof (induction ds arbitrary: a cnt i)
  case Nil
  then show ?case by simp
next
  case (Cons d ds)
  then show ?case by (cases i) (auto simp: algebra_simps)
qed

lemma AddChild_sel [simp]:
  "addr (AddChild c p) = addr p" "title (AddChild c p) = title p"
  "filepath (AddChild c p) = filepath p" "defaultSubsong (AddChild c p) = defaultSubsong p"
  "romRequirement (AddChild c p) = romRequirement p" "playable (AddChild c p) = playable p"
  "tag (AddChild c p) = tag p" "children (AddChild c p) = children p @ [c]"
  by (simp_all add: AddChild_def)

lemma set_children_twice [simp]: "set_children ch (set_children ch' p) = set_children ch p"
  by (cases p) (simp add: set_children_def)

lemma newChildNode_set_children [simp]:
  "newChildNode a c d (set_children ch p) = newChildNode a c d p"
  by (simp add: newChildNode_def IsPlayable_def)

lemma subsong_nodes_set_children [simp]:
  "subsong_nodes a cnt ds (set_children ch p) = subsong_nodes a cnt ds p"
  by (induction ds arbitrary: a cnt) auto

lemma deref_AddSubsongs_loop:
  "deref s parent' = Some p \<Longrightarrow>
     deref (AddSubsongs_loop parent' cnt ds s) parent' =
       Some (set_children (children p @ subsong_nodes (nextAddr s) cnt ds p) p)"
proof (induction ds arbitrary: s cnt p)
  case Nil
  then show ?case by (cases p) (simp add: set_children_def)
next
  case (Cons d ds)
  let ?c = "newChildNode (nextAddr s) (cnt + 1) d p"
  let ?s1 = "(update_store parent' (\<lambda>p. AddChild (newChildNode (nextAddr s) (cnt + 1) d p) p) s)
      \<lparr>nextAddr := Suc (nextAddr s)\<rparr>"
  have "deref ?s1 parent' = Some (AddChild ?c p)"
    using Cons.prems by (simp add: deref_update_store)
  from Cons.IH [OF this, of "cnt + 1"] show ?case
    by (simp add: Let_def AddChild_def)
qed

lemma nextAddr_update_store [simp]: "nextAddr (update_store a f s) = nextAddr s"
  by (simp add: update_store_def)

text \<open>
  Claim C7, as amended. \<^verbatim>\<open>AddSubsongs\<close> with an empty sequence changes nothing. With a
  non-empty sequence and a parent \<open>p\<close> of the store it appends one subsong per element to
  the child collection of the parent, in the order of the sequence; the subsong for the
  element at position \<open>i\<close> (from 0) has the index \<open>i + 1\<close>, the title made of two spaces, the
  parent's title, ": ", the word Subsong, a space and the index, the parent's file path
  and ROM requirement, the duration of the element, as its playable flag the value of
  \<^verbatim>\<open>IsPlayable\<close> of the parent, and the default-subsong icon exactly when its index is
  the parent's default subsong.
\<close>

theorem AddSubsongs_appends_subsongs:
  "AddSubsongs s [] parent' = Inr s \<and>
   (deref s parent' = Some p \<longrightarrow> durations \<noteq> [] \<longrightarrow>
      (\<exists>s' p'. AddSubsongs s durations parent' = Inr s' \<and> deref s' parent' = Some p' \<and>
         p' = set_children (children p') p \<and>
         length (children p') = length (children p) + length durations \<and>
         take (length (children p)) (children p') = children p \<and>
         (\<forall>i < length durations.
            let c = children p' ! (length (children p) + i); n = int i + 1
            in type c = Subsong \<and> parent c = Some parent' \<and> defaultSubsong c = n \<and>
               title c = ''  '' @ title p @ '': '' @ SUBSONG @ '' '' @ format_int n \<and>
               filepath c = filepath p \<and> romRequirement c = romRequirement p \<and>
               playable c = IsPlayable p \<and> duration c = durations ! i \<and>
               iconId c = (if defaultSubsong p = n then DefaultSubsongIndicator else NoIcon))))"
proof -
  have "\<exists>s' p'. AddSubsongs s durations parent' = Inr s' \<and> deref s' parent' = Some p' \<and>
         p' = set_children (children p') p \<and>
         length (children p') = length (children p) + length durations \<and>
         take (length (children p)) (children p') = children p \<and>
         (\<forall>i < length durations.
            let c = children p' ! (length (children p) + i); n = int i + 1
            in type c = Subsong \<and> parent c = Some parent' \<and> defaultSubsong c = n \<and>
               title c = ''  '' @ title p @ '': '' @ SUBSONG @ '' '' @ format_int n \<and>
               filepath c = filepath p \<and> romRequirement c = romRequirement p \<and>
               playable c = IsPlayable p \<and> duration c = durations ! i \<and>
               iconId c = (if defaultSubsong p = n then DefaultSubsongIndicator else NoIcon))"
    if p: "deref s parent' = Some p" and ne: "durations \<noteq> []"
  proof -
    let ?s' = "notify (ItemsAdded parent') (AddSubsongs_loop parent' 0 durations s)"
    let ?p' = "set_children (children p @ subsong_nodes (nextAddr s) 0 durations p) p"
    have pa: "addr p = parent'"
      using p unfolding deref_def by (auto dest: find_Some_iff [THEN iffD1])
    have 1: "AddSubsongs s durations parent' = Inr ?s'"
      using p ne by (simp add: AddSubsongs_def)
    have 2: "deref ?s' parent' = Some ?p'"
      using deref_AddSubsongs_loop [OF p] by simp
    have 3: "\<forall>i < length durations.
            let c = children ?p' ! (length (children p) + i); n = int i + 1
            in type c = Subsong \<and> parent c = Some parent' \<and> defaultSubsong c = n \<and>
               title c = ''  '' @ title p @ '': '' @ SUBSONG @ '' '' @ format_int n \<and>
               filepath c = filepath p \<and> romRequirement c = romRequirement p \<and>
               playable c = IsPlayable p \<and> duration c = durations ! i \<and>
               iconId c = (if defaultSubsong p = n then DefaultSubsongIndicator else NoIcon)"
      using pa by (auto simp: Let_def nth_append nth_subsong_nodes newChildNode_def add.commute)
    show ?thesis
      using 1 2 3 by (intro exI [of _ ?s'] exI [of _ ?p']) simp
  qed
  then show ?thesis
    by (simp add: AddSubsongs_def)
qed

theorem AddSubsongs_appends_subsongs_witness:
  "deref demo_songs 1 = Some (entries demo_songs ! 0)
   \<and> (\<exists>s' p'. AddSubsongs demo_songs [60, 70, 80] 1 = Inr s' \<and> deref s' 1 = Some p' \<and>
         length (children p') = 3 \<and>
         defaultSubsong (children p' ! 0) = 1 \<and>
         title (children p' ! 0) = ''  Commando: Subsong 1'' \<and>
         iconId (children p' ! 0) = DefaultSubsongIndicator \<and>
         defaultSubsong (children p' ! 2) = 3 \<and>
         title (children p' ! 2) = ''  Commando: Subsong 3'' \<and>
         iconId (children p' ! 2) = NoIcon)"
proof -
  have d: "deref demo_songs 1 = Some (entries demo_songs ! 0)"
    by code_simp
  have f: "children (entries demo_songs ! 0) = []" "title (entries demo_songs ! 0) = ''Commando''"
    "defaultSubsong (entries demo_songs ! 0) = 1" "format_int 1 = ''1''" "format_int 3 = ''3''"
    by code_simp+
  have ne: "[60, 70, 80 :: nat] \<noteq> []"
    by simp
  note t = AddSubsongs_appends_subsongs [of demo_songs 1 "entries demo_songs ! 0" "[60, 70, 80]",
      THEN conjunct2, rule_format, OF d ne]
  from t obtain s' p' where r: "AddSubsongs demo_songs [60, 70, 80] 1 = Inr s'" "deref s' 1 = Some p'"
    "length (children p') = length (children (entries demo_songs ! 0)) + length [60, 70, 80 :: nat]"
    and all: "\<forall>i < length [60, 70, 80 :: nat].
            let c = children p' ! (length (children (entries demo_songs ! 0)) + i); n = int i + 1
            in type c = Subsong \<and> parent c = Some 1 \<and> defaultSubsong c = n \<and>
               title c = ''  '' @ title (entries demo_songs ! 0) @ '': '' @ SUBSONG @ '' '' @ format_int n \<and>
               filepath c = filepath (entries demo_songs ! 0) \<and> romRequirement c = romRequirement (entries demo_songs ! 0) \<and>
               playable c = IsPlayable (entries demo_songs ! 0) \<and> duration c = [60, 70, 80] ! i \<and>
               iconId c = (if defaultSubsong (entries demo_songs ! 0) = n then DefaultSubsongIndicator else NoIcon)"
    by blast
  from all [rule_format, of 0] have "let c = children p' ! (length (children (entries demo_songs ! 0)) + 0); n = int 0 + 1
            in defaultSubsong c = n \<and>
               title c = ''  '' @ title (entries demo_songs ! 0) @ '': '' @ SUBSONG @ '' '' @ format_int n \<and>
               iconId c = (if defaultSubsong (entries demo_songs ! 0) = n then DefaultSubsongIndicator else NoIcon)"
    by (simp add: Let_def)
  then have c0: "defaultSubsong (children p' ! 0) = 1 \<and> title (children p' ! 0) = ''  Commando: Subsong 1'' \<and>
      iconId (children p' ! 0) = DefaultSubsongIndicator"
    by (simp add: f SUBSONG_def Let_def)
  from all [rule_format, of 2] have "let c = children p' ! (length (children (entries demo_songs ! 0)) + 2); n = int 2 + 1
            in defaultSubsong c = n \<and>
               title c = ''  '' @ title (entries demo_songs ! 0) @ '': '' @ SUBSONG @ '' '' @ format_int n \<and>
               iconId c = (if defaultSubsong (entries demo_songs ! 0) = n then DefaultSubsongIndicator else NoIcon)"
    by (simp add: Let_def)
  then have c2: "defaultSubsong (children p' ! 2) = 3 \<and> title (children p' ! 2) = ''  Commando: Subsong 3'' \<and>
      iconId (children p' ! 2) = NoIcon"
    by (simp add: f SUBSONG_def Let_def numeral_2_eq_2)
  show ?thesis
    using d r c0 c2 by (simp add: f)
qed

text \<open>The claim as it is written does not hold: the title of a subsong starts with two
  spaces, and the playable flag of a subsong is the parent's playability, which is false
  for a blacklisted parent whose own flag is true.\<close>

theorem AddSubsongs_claim_counterexample:
  "AddSubsongs demo_songs [60, 70, 80] 1 = Inr demo_subsongs
   \<and> title (entries demo_songs ! 0) = ''Commando''
   \<and> map title (children (entries demo_subsongs ! 0)) =
       [''  Commando: Subsong 1'', ''  Commando: Subsong 2'', ''  Commando: Subsong 3'']
   \<and> title (children (entries demo_subsongs ! 0) ! 0) \<noteq> ''Commando: Subsong 1''
   \<and> playable (entries demo_blacklisted ! 0) = True
   \<and> (case AddSubsongs demo_blacklisted [60] 1 of
        Inl e \<Rightarrow> False
      | Inr s \<Rightarrow> map playable (children (entries s ! 0)) = [False])"
  by code_simp

section \<open>The neighbour search\<close>

lemma find_if_distinct:
  "distinct (map f xs) \<Longrightarrow> i < length xs \<Longrightarrow> find_if (\<lambda>c. f c = f (xs ! i)) xs = i"
proof (induction xs arbitrary: i)
  case Nil
  then show ?case by simp
next
  case (Cons x xs)
  show ?case
  proof (cases i)
    case 0
    then show ?thesis by simp
  next
    case (Suc j)
    with Cons.prems have "f (xs ! j) \<in> f ` set xs" by simp
    with Cons.prems have "f x \<noteq> f (xs ! j)" by auto
    with Cons Suc show ?thesis by simp
  qed
qed

lemma GetNextSong_distinct:
  assumes d: "distinct (map filepath (entries s))"
  shows "i < length (entries s) \<Longrightarrow>
    GetNextSong s (entries s ! i) =
      Some (case find IsAutoPlayable (drop (Suc i) (entries s)) of
              None \<Rightarrow> Inr None
            | Some n \<Rightarrow> GetEffectiveInitialSubsong s n)"
proof (induction "length (entries s) - i" arbitrary: i)
  case 0
  then show ?case by simp
next
  case (Suc k)
  have it: "find_if (\<lambda>c. filepath c = filepath (entries s ! i)) (entries s) = i"
    using d Suc.prems by (rule find_if_distinct)
  show ?case
  proof (cases "Suc i = length (entries s)")
    case True
    then show ?thesis
      using it Suc.prems by (subst GetNextSong.simps) (simp add: Let_def)
  next
    case False
    with Suc.prems have lt: "Suc i < length (entries s)" by simp
    then have dr: "drop (Suc i) (entries s) = entries s ! Suc i # drop (Suc (Suc i)) (entries s)"
      by (simp add: Cons_nth_drop_Suc)
    from Suc.hyps(2) have "k = length (entries s) - Suc i" by simp
    from Suc.hyps(1) [OF this lt] show ?thesis
      using it False Suc.prems dr by (subst GetNextSong.simps) (simp add: Let_def)
  qed
qed

lemma GetPrevSong_distinct:
  assumes d: "distinct (map filepath (entries s))"
  shows "i < length (entries s) \<Longrightarrow>
    GetPrevSong s (entries s ! i) =
      (case find IsAutoPlayable (rev (take i (entries s))) of
         None \<Rightarrow> Inr None
       | Some n \<Rightarrow> GetEffectiveInitialSubsong s n)"
proof (induction i)
  case 0
  have "find_if (\<lambda>c. filepath c = filepath (entries s ! 0)) (entries s) = 0"
    using d 0 by (rule find_if_distinct)
  then show ?case
    by (subst GetPrevSong.simps) (simp add: Let_def)
next
  case (Suc i)
  have it: "find_if (\<lambda>c. filepath c = filepath (entries s ! Suc i)) (entries s) = Suc i"
    using d Suc.prems by (rule find_if_distinct)
  from Suc.prems have lt: "i < length (entries s)" by simp
  then have tk: "take (Suc i) (entries s) = take i (entries s) @ [entries s ! i]"
    by (simp add: take_Suc_conv_app_nth)
  from Suc.IH [OF lt] show ?case
    using it Suc.prems tk by (subst GetPrevSong.simps) (simp add: Let_def)
qed

text \<open>
  Claim C4, as amended. In a store whose songs have pairwise different file paths,
  \<^verbatim>\<open>GetNextSong\<close> from the song at position \<open>i\<close> returns, and its result is the effective
  initial subsong of the first auto-playable song after position \<open>i\<close>, or null when there
  is none; \<^verbatim>\<open>GetPrevSong\<close> returns the effective initial subsong of the last auto-playable
  song before position \<open>i\<close>, or null when there is none. In particular, for songs A, B, C
  in this order, A and C auto-playable and B not, \<^verbatim>\<open>GetNextSong\<close> from A gives the
  effective initial subsong of C and \<^verbatim>\<open>GetPrevSong\<close> from C that of A.
\<close>

theorem neighbour_search_distinct_paths:
  assumes "distinct (map filepath (entries s))"
  shows "(\<forall>i < length (entries s).
            GetNextSong s (entries s ! i) =
              Some (case find IsAutoPlayable (drop (Suc i) (entries s)) of
                      None \<Rightarrow> Inr None
                    | Some n \<Rightarrow> GetEffectiveInitialSubsong s n)
          \<and> GetPrevSong s (entries s ! i) =
              (case find IsAutoPlayable (rev (take i (entries s))) of
                 None \<Rightarrow> Inr None
               | Some n \<Rightarrow> GetEffectiveInitialSubsong s n))
       \<and> (\<forall>A B C. entries s = [A, B, C] \<and> IsAutoPlayable A \<and> \<not> IsAutoPlayable B \<and> IsAutoPlayable C
            \<longrightarrow> GetNextSong s A = Some (GetEffectiveInitialSubsong s C)
              \<and> GetPrevSong s C = GetEffectiveInitialSubsong s A)"
proof (intro conjI allI impI)
  fix i assume "i < length (entries s)"
  then show "GetNextSong s (entries s ! i) =
              Some (case find IsAutoPlayable (drop (Suc i) (entries s)) of
                      None \<Rightarrow> Inr None
                    | Some n \<Rightarrow> GetEffectiveInitialSubsong s n)"
    and "GetPrevSong s (entries s ! i) =
              (case find IsAutoPlayable (rev (take i (entries s))) of
                 None \<Rightarrow> Inr None
               | Some n \<Rightarrow> GetEffectiveInitialSubsong s n)"
    using assms by (simp_all add: GetNextSong_distinct GetPrevSong_distinct)
next
  fix A B C
  assume abc: "entries s = [A, B, C] \<and> IsAutoPlayable A \<and> \<not> IsAutoPlayable B \<and> IsAutoPlayable C"
  from GetNextSong_distinct [OF assms, of 0] abc
  show "GetNextSong s A = Some (GetEffectiveInitialSubsong s C)" by simp
  from GetPrevSong_distinct [OF assms, of 2] abc
  show "GetPrevSong s C = GetEffectiveInitialSubsong s A" by simp
qed

theorem neighbour_search_distinct_paths_witness:
  "distinct (map filepath (entries demo_abc))
   \<and> length (entries demo_abc) = 3
   \<and> map IsAutoPlayable (entries demo_abc) = [True, False, True]
   \<and> GetNextSong demo_abc (entries demo_abc ! 0) = Some (Inr (Some (entries demo_abc ! 2)))
   \<and> GetPrevSong demo_abc (entries demo_abc ! 2) = Inr (Some (entries demo_abc ! 0))
   \<and> GetNextSong demo_abc (entries demo_abc ! 2) = Some (Inr None)
   \<and> GetPrevSong demo_abc (entries demo_abc ! 0) = Inr None"
proof -
  have d: "distinct (map filepath (entries demo_abc))"
    by code_simp
  have l: "length (entries demo_abc) = 3" "map IsAutoPlayable (entries demo_abc) = [True, False, True]"
    by code_simp+
  have e: "(case find IsAutoPlayable (drop (Suc 0) (entries demo_abc)) of
              None \<Rightarrow> Inr None
            | Some n \<Rightarrow> GetEffectiveInitialSubsong demo_abc n) = Inr (Some (entries demo_abc ! 2))"
    "(case find IsAutoPlayable (rev (take 2 (entries demo_abc))) of
              None \<Rightarrow> Inr None
            | Some n \<Rightarrow> GetEffectiveInitialSubsong demo_abc n) = Inr (Some (entries demo_abc ! 0))"
    "(case find IsAutoPlayable (drop (Suc 2) (entries demo_abc)) of
              None \<Rightarrow> Inr None
            | Some n \<Rightarrow> GetEffectiveInitialSubsong demo_abc n) = Inr None"
    "(case find IsAutoPlayable (rev (take 0 (entries demo_abc))) of
              None \<Rightarrow> Inr None
            | Some n \<Rightarrow> GetEffectiveInitialSubsong demo_abc n) = Inr None"
    by code_simp+
  note t = neighbour_search_distinct_paths [OF d, THEN conjunct1, rule_format]
  have "0 < length (entries demo_abc)" "2 < length (entries demo_abc)"
    by (simp_all add: l)
  from t [OF this(1)] t [OF this(2)] show ?thesis
    unfolding e using d l by simp
qed

text \<open>The claim as it is written does not hold. When C has the file path of A, the
  search from C starts at the position of A and \<^verbatim>\<open>GetPrevSong\<close> returns null. When A is
  playable and not auto-playable (tagged ShortDuration) and has auto-playable subsongs,
  \<^verbatim>\<open>GetPrevSong\<close> from C skips A and returns null, while the effective initial subsong of
  A is its first subsong.\<close>

theorem neighbour_search_claim_counterexample:
  "map filepath (entries demo_repeat) = [''commando.sid'', ''cybernoid.sid'', ''commando.sid'']
   \<and> map IsPlayable (entries demo_repeat) = [True, False, True]
   \<and> GetEffectiveInitialSubsong demo_repeat (entries demo_repeat ! 0) =
       Inr (Some (entries demo_repeat ! 0))
   \<and> GetPrevSong demo_repeat (entries demo_repeat ! 2) = Inr None
   \<and> map filepath (entries demo_short) = [''commando.sid'', ''cybernoid.sid'', ''delta.sid'']
   \<and> map IsPlayable (entries demo_short) = [True, False, True]
   \<and> GetEffectiveInitialSubsong demo_short (entries demo_short ! 0) =
       Inr (Some (children (entries demo_short ! 0) ! 0))
   \<and> GetPrevSong demo_short (entries demo_short ! 2) = Inr None"
  by code_simp

section \<open>Termination of the neighbour search\<close>

lemma GetNextSong_demo_duplicates_aux:
  assumes "GetNextSong s n = Some y"
  shows "\<not> (s = demo_duplicates \<and> filepath n = ''commando.sid'')"
proof (rule GetNextSong.raw_induct [where P = "\<lambda>s n y.
    \<not> (s = demo_duplicates \<and> filepath n = ''commando.sid'')", OF _ assms], goal_cases)
  case (1 f s fromSong y)
  show ?case
  proof
    assume "s = demo_duplicates \<and> filepath fromSong = ''commando.sid''"
    then have s: "s = demo_duplicates" and fr: "filepath fromSong = ''commando.sid''"
      by simp_all
    have it: "find_if (\<lambda>c. filepath c = ''commando.sid'') (entries demo_duplicates) = 0"
      and le: "length (entries demo_duplicates) = 2"
      and au: "\<not> IsAutoPlayable (entries demo_duplicates ! Suc 0)"
      and fp: "filepath (entries demo_duplicates ! Suc 0) = ''commando.sid''"
      by code_simp+
    from 1(2) have "f demo_duplicates (entries demo_duplicates ! Suc 0) = Some y"
      unfolding s fr by (simp add: it le au Let_def)
    from 1(1) [OF this] fp show False by simp
  qed
qed

text \<open>
  Claim C1, evaluated at a store with two songs of the same file path, the second of them
  not playable (two calls of \<^verbatim>\<open>AddMainSong\<close>). \<^verbatim>\<open>GetNextSong\<close> from the first song looks
  at the second song, finds it not auto-playable and calls itself with the second song,
  whose file path is found at the first position again: the call never returns.
  \<^verbatim>\<open>GetPrevSong\<close> returns on the same store.
\<close>

theorem GetNextSong_duplicate_path_never_returns:
  "map filepath (entries demo_duplicates) = [''commando.sid'', ''commando.sid'']
   \<and> GetNextSong demo_duplicates (entries demo_duplicates ! 0) = None
   \<and> GetPrevSong demo_duplicates (entries demo_duplicates ! 1) = Inr None"
proof -
  have fp: "map filepath (entries demo_duplicates) = [''commando.sid'', ''commando.sid'']"
    and f0: "filepath (entries demo_duplicates ! 0) = ''commando.sid''"
    and pr: "GetPrevSong demo_duplicates (entries demo_duplicates ! 1) = Inr None"
    by code_simp+
  have "GetNextSong demo_duplicates (entries demo_duplicates ! 0) = None"
  proof (cases "GetNextSong demo_duplicates (entries demo_duplicates ! 0)")
    case None
    then show ?thesis .
  next
    case (Some y)
    from GetNextSong_demo_duplicates_aux [OF this] f0 show ?thesis by simp
  qed
  with fp pr show ?thesis by simp
qed

section \<open>Preservation of the invariant\<close>

lemma ids_simps: "ids n = (addr n, filepath n) # concat (map ids (children n))"
  unfolding ids_def by (subst nodes_of.simps) (simp add: map_concat comp_def)

lemma all_nodes_ids:
  "map (\<lambda>m. (addr m, filepath m)) (all_nodes s) = concat (map ids (entries s))"
  unfolding all_nodes_def ids_def by (simp add: map_concat comp_def)

lemma addrs_all_nodes: "map addr (all_nodes s) = map fst (concat (map ids (entries s)))"
  by (simp add: all_nodes_ids [symmetric] comp_def)

lemma set_ids: "set (ids n) = (\<lambda>m. (addr m, filepath m)) ` set (nodes_of n)"
  by (simp add: ids_def)

lemma store_inv_ids:
  "store_inv s \<longleftrightarrow>
     distinct (map fst (concat (map ids (entries s)))) \<and>
     (\<forall>p \<in> set (concat (map ids (entries s))). fst p < nextAddr s) \<and>
     (\<forall>l \<in> set (map ids (entries s)). \<forall>p \<in> set l. snd p = snd (hd l))"
proof -
  have 1: "(\<forall>n \<in> set (all_nodes s). addr n < nextAddr s) \<longleftrightarrow>
      (\<forall>p \<in> set (concat (map ids (entries s))). fst p < nextAddr s)"
    unfolding all_nodes_ids [symmetric] by auto
  have 2: "(\<forall>e \<in> set (entries s). \<forall>n \<in> set (nodes_of e). filepath n = filepath e) \<longleftrightarrow>
      (\<forall>l \<in> set (map ids (entries s)). \<forall>p \<in> set l. snd p = snd (hd l))"
    by (auto simp: set_ids) (simp_all add: ids_simps)
  show ?thesis
    unfolding store_inv_def addrs_all_nodes 1 2 ..
qed

lemma active_inv_ids:
  "active_inv s \<longleftrightarrow>
     (case activeItem s of
        None \<Rightarrow> True
      | Some a \<Rightarrow> a \<in> fst ` set (concat (map ids (entries s))))"
proof -
  have "addr ` set (all_nodes s) = fst ` set (concat (map ids (entries s)))"
    using arg_cong [OF addrs_all_nodes, of set s] by simp
  then show ?thesis unfolding active_inv_def by (simp only:)
qed

lemma invariant_cong:
  assumes "map ids (entries s') = map ids (entries s)" "nextAddr s' = nextAddr s"
    "activeItem s' = activeItem s"
  shows "invariant s' = invariant s"
  unfolding invariant_def store_inv_ids active_inv_ids assms ..

lemma ids_update_node:
  assumes "\<And>m. ids (f m) = ids m"
  shows "ids (update_node a f n) = ids n"
proof (induction n rule: nodes_of.induct)
  case (1 n)
  show ?case
  proof (cases "addr n = a")
    case True
    then show ?thesis by (simp add: update_node.simps assms)
  next
    case False
    have "concat (map (\<lambda>c. ids (update_node a f c)) (children n)) = concat (map ids (children n))"
      by (rule arg_cong [where f = concat], rule map_cong) (simp_all add: 1)
    with False show ?thesis
      by (simp add: update_node.simps [of a f n] ids_simps [of "set_children ch n" for ch]
          ids_simps [of n] comp_def)
  qed
qed

lemma ids_update_store:
  assumes "\<And>m. ids (f m) = ids m"
  shows "map ids (entries (update_store a f s)) = map ids (entries s)"
  by (simp add: update_store_def comp_def ids_update_node [OF assms])

lemma attr_setters_sel [simp]:
  "addr (ResetItemAttr m) = addr m" "addr (SetBold b m) = addr m"
  "addr (SetColour c m) = addr m" "addr (SetStrikethrough b m) = addr m"
  "filepath (ResetItemAttr m) = filepath m" "filepath (SetBold b m) = filepath m"
  "filepath (SetColour c m) = filepath m" "filepath (SetStrikethrough b m) = filepath m"
  "children (ResetItemAttr m) = children m" "children (SetBold b m) = children m"
  "children (SetColour c m) = children m" "children (SetStrikethrough b m) = children m"
  by (simp_all add: ResetItemAttr_def SetBold_def SetColour_def SetStrikethrough_def)

lemma ids_set_children: "ids (set_children ch m) = (addr m, filepath m) # concat (map ids ch)"
  by (simp add: ids_simps [of "set_children ch m"])

lemma ids_same_children:
  "addr m' = addr m \<Longrightarrow> filepath m' = filepath m \<Longrightarrow> children m' = children m \<Longrightarrow>
     ids m' = ids m"
  by (simp add: ids_simps [of m] ids_simps [of m'])

lemma ids_setters [simp]:
  "ids (SetTag t m) = ids m" "ids (SetIconId i m) = ids m" "ids (set_itemAttr at m) = ids m"
  "ids (ResetItemAttr m) = ids m" "ids (SetBold b m) = ids m" "ids (SetColour c m) = ids m"
  "ids (SetStrikethrough b m) = ids m"
  by (rule ids_same_children; simp)+

lemma ids_apply_tag [simp]: "ids (apply_tag t force d m) = ids m"
proof -
  have *: "ids (set_children (map (\<lambda>c. SetStrikethrough True (SetColour col c)) (children x)) y)
      = ids x" if "ids y = ids x" for col x y
    using that by (simp add: ids_set_children comp_def ids_simps [of x] ids_simps [of y])
  show ?thesis
    by (cases t) (simp_all add: apply_tag_def Let_def GetChildren_def *)
qed


lemma store_inv_cong:
  assumes "map ids (entries s') = map ids (entries s)" "nextAddr s' = nextAddr s"
  shows "store_inv s' = store_inv s"
  unfolding store_inv_ids assms ..

lemma deref_Some:
  "deref s a = Some n \<Longrightarrow> addr n = a \<and> n \<in> set (all_nodes s)"
  unfolding deref_def by (auto simp: find_Some_iff)

lemma update_store_frame [simp]:
  "nextAddr (update_store a f s) = nextAddr s" "activeItem (update_store a f s) = activeItem s"
  by (simp_all add: update_store_def)

lemma addrs_ids: "addr ` set (all_nodes s) = fst ` set (concat (map ids (entries s)))"
  using arg_cong [OF addrs_all_nodes, of set s] by simp

lemma unhighlight_old_frame:
  assumes "unhighlight_old s ax = Inr s1"
  shows "map ids (entries s1) = map ids (entries s) \<and> nextAddr s1 = nextAddr s"
  using assms
  by (auto simp: unhighlight_old_def Let_def ids_update_store split: option.splits if_splits)

lemma TrySetActiveSong_invariant:
  assumes inv: "invariant s" and run: "TrySetActiveSong s node ax = Inr (b, s')"
  shows "invariant s'"
proof -
  from run obtain n where n: "deref s node = Some n"
    by (auto simp: TrySetActiveSong_def split: option.splits)
  show ?thesis
  proof (cases "IsPlayable n")
    case False
    with run n inv show ?thesis by (simp add: TrySetActiveSong_def)
  next
    case True
    with run n obtain s1 where s1: "unhighlight_old s ax = Inr s1"
      by (auto simp: TrySetActiveSong_def split: sum.splits)
    note fr = unhighlight_old_frame [OF s1]
    from run n True s1 have ids: "map ids (entries s') = map ids (entries s)"
      and nx: "nextAddr s' = nextAddr s" and ac: "activeItem s' = Some node"
      by (auto simp: TrySetActiveSong_def Let_def ids_update_store fr
          split: option.splits if_splits)
    from n have "node \<in> addr ` set (all_nodes s)"
      by (auto dest: deref_Some)
    then have "active_inv s'"
      unfolding active_inv_ids ac ids addrs_ids by simp
    moreover have "store_inv s'"
      using inv store_inv_cong [OF ids nx] by (simp add: invariant_def)
    ultimately show ?thesis by (simp add: invariant_def)
  qed
qed

lemma SetItemTag_invariant:
  assumes inv: "invariant s" and run: "SetItemTag s node t force = Inr s'"
  shows "invariant s'"
proof -
  from run have "map ids (entries s') = map ids (entries s) \<and> nextAddr s' = nextAddr s
      \<and> activeItem s' = activeItem s"
    by (auto simp: SetItemTag_def ids_update_store split: option.splits if_splits sum.splits)
  then have "invariant s' = invariant s"
    by (intro invariant_cong) simp_all
  with inv show ?thesis by simp
qed

lemma Clear_invariant: "invariant (Clear s)"
  by (simp add: Clear_def Let_def invariant_def store_inv_def active_inv_def all_nodes_def)

lemma Refresh_invariant: "invariant (snd (RefreshAuthorColumnVisibility s)) = invariant s"
  by (rule invariant_cong) simp_all

lemma nodes_of_new [simp]:
  "nodes_of (new_PlaylistTreeModelNode a pa ti fp ds du au rr pl) =
     [new_PlaylistTreeModelNode a pa ti fp ds du au rr pl]"
  by (subst nodes_of.simps) simp

lemma AddMainSong_invariant:
  assumes inv: "invariant s"
  shows "invariant (snd (AddMainSong s ti fp ds du au rr pl))"
proof -
  let ?n = "new_PlaylistTreeModelNode (nextAddr s) None ti fp ds du au rr pl"
  let ?t = "s\<lparr>entries := entries s @ [?n], nextAddr := Suc (nextAddr s)\<rparr>"
  have "invariant (snd (AddMainSong s ti fp ds du au rr pl)) = invariant ?t"
    unfolding AddMainSong_def Let_def snd_conv by (rule invariant_cong) simp_all
  moreover have "invariant ?t"
  proof -
    have an: "all_nodes ?t = all_nodes s @ [?n]"
      unfolding all_nodes_def by simp
    have en: "entries ?t = entries s @ [?n]" and nx: "nextAddr ?t = Suc (nextAddr s)"
      and ac: "activeItem ?t = activeItem s"
      by simp_all
    from inv have di: "distinct (map addr (all_nodes s))"
      and lt: "\<forall>n \<in> set (all_nodes s). addr n < nextAddr s"
      and fp: "\<forall>e \<in> set (entries s). \<forall>n \<in> set (nodes_of e). filepath n = filepath e"
      and av: "active_inv s"
      by (simp_all add: invariant_def store_inv_def)
    from lt have fresh: "nextAddr s \<notin> addr ` set (all_nodes s)"
      by auto
    have 1: "distinct (map addr (all_nodes ?t))"
      unfolding an using di fresh by simp
    have 2: "\<forall>n \<in> set (all_nodes ?t). addr n < nextAddr ?t"
      unfolding an nx using lt by auto
    have 3: "\<forall>e \<in> set (entries ?t). \<forall>n \<in> set (nodes_of e). filepath n = filepath e"
      unfolding en using fp by auto
    have 4: "active_inv ?t"
      using av unfolding active_inv_def ac an by (auto split: option.splits)
    from 1 2 3 4 show ?thesis
      unfolding invariant_def store_inv_def by blast
  qed
  ultimately show ?thesis by simp
qed


lemma distinct_concat_map_insert:
  assumes "distinct (concat (map A xs))" and "z \<notin> set (concat (map A xs))"
    and "\<And>x. x \<in> set xs \<Longrightarrow> distinct (B x)"
    and "\<And>x. x \<in> set xs \<Longrightarrow> set (B x) \<subseteq> insert z (set (A x))"
    and "\<And>x. x \<in> set xs \<Longrightarrow> z \<in> set (B x) \<Longrightarrow> w \<in> set (A x)"
  shows "distinct (concat (map B xs))"
  using assms
proof (induction xs)
  case Nil
  then show ?case by simp
next
  case (Cons x xs)
  have "set (B x) \<inter> set (concat (map B xs)) = {}"
  proof (rule ccontr)
    assume "set (B x) \<inter> set (concat (map B xs)) \<noteq> {}"
    then obtain e y where e: "e \<in> set (B x)" "y \<in> set xs" "e \<in> set (B y)"
      by auto
    from Cons.prems(1) \<open>y \<in> set xs\<close> have disj: "set (A x) \<inter> set (A y) = {}"
      by auto
    show False
    proof (cases "e = z")
      case True
      with e Cons.prems(5) [of x] Cons.prems(5) [of y] have "w \<in> set (A x)" "w \<in> set (A y)"
        by simp_all
      with disj show False by auto
    next
      case False
      with e Cons.prems(4) [of x] Cons.prems(4) [of y] have "e \<in> set (A x)" "e \<in> set (A y)"
        by auto
      with disj show False by auto
    qed
  qed
  moreover have "distinct (concat (map B xs))"
    using Cons.prems by (intro Cons.IH) auto
  moreover have "distinct (B x)"
    using Cons.prems(3) by simp
  ultimately show ?case by simp
qed

lemma ids_AddChild: "ids (AddChild c n) = ids n @ ids c"
  by (simp add: AddChild_def ids_set_children ids_simps [of n])

lemma ids_newChildNode [simp]: "ids (newChildNode a cnt d p) = [(a, filepath p)]"
  by (simp add: newChildNode_def Let_def ids_simps [of "SetIconId i m" for i m]
      ids_simps [of "new_PlaylistTreeModelNode a pa ti fp ds du au rr pl" for a pa ti fp ds du au rr pl])

lemma ids_nonempty [simp]: "ids n \<noteq> []" "hd (ids n) = (addr n, filepath n)"
  by (simp_all add: ids_simps [of n])

lemma ids_update_node_AddChild:
  fixes a :: addr and parent' :: addr and cnt :: int and d :: nat
  defines "U \<equiv> update_node parent' (\<lambda>p. AddChild (newChildNode a cnt d p) p)"
  assumes "distinct (map fst (ids n))" and "a \<notin> fst ` set (ids n)"
  shows "distinct (map fst (ids (U n))) \<and> set (ids n) \<subseteq> set (ids (U n)) \<and>
    fst ` set (ids (U n)) \<subseteq> insert a (fst ` set (ids n)) \<and>
    (a \<in> fst ` set (ids (U n)) \<longrightarrow> parent' \<in> fst ` set (ids n)) \<and>
    snd ` set (ids (U n)) \<subseteq> snd ` set (ids n) \<and> hd (ids (U n)) = hd (ids n)"
  using assms(2,3)
proof (induction n rule: nodes_of.induct)
  case (1 n)
  show ?case
  proof (cases "addr n = parent'")
    case True
    then have "ids (U n) = ids n @ [(a, filepath n)]"
      by (simp add: U_def update_node.simps ids_AddChild)
    moreover have "(parent', filepath n) \<in> set (ids n)"
      using True by (simp add: ids_simps [of n])
    moreover have "(addr n, filepath n) \<in> set (ids n)"
      by (simp add: ids_simps [of n])
    ultimately show ?thesis
      using 1(2,3) by (force simp: image_iff)
  next
    case False
    let ?A = "\<lambda>c. map fst (ids c)" and ?B = "\<lambda>c. map fst (ids (U c))"
    have idsU: "ids (U n) = (addr n, filepath n) # concat (map (\<lambda>c. ids (U c)) (children n))"
      using False by (simp add: U_def update_node.simps [of _ _ n] ids_set_children comp_def)
    have idsn: "ids n = (addr n, filepath n) # concat (map ids (children n))"
      by (rule ids_simps)
    from 1(2) idsn have dch: "distinct (concat (map ?A (children n)))"
      and top: "addr n \<notin> set (concat (map ?A (children n)))"
      by (simp_all add: map_concat comp_def)
    from 1(3) idsn have a_n: "a \<noteq> addr n" and a_ch: "a \<notin> set (concat (map ?A (children n)))"
      by (auto simp: map_concat comp_def)
    have IH: "distinct (map fst (ids (U c))) \<and> set (ids c) \<subseteq> set (ids (U c)) \<and>
        fst ` set (ids (U c)) \<subseteq> insert a (fst ` set (ids c)) \<and>
        (a \<in> fst ` set (ids (U c)) \<longrightarrow> parent' \<in> fst ` set (ids c)) \<and>
        snd ` set (ids (U c)) \<subseteq> snd ` set (ids c) \<and> hd (ids (U c)) = hd (ids c)"
      if "c \<in> set (children n)" for c
    proof (rule 1(1) [OF that])
      from dch that show "distinct (map fst (ids c))"
        by (auto simp: distinct_concat_iff)
      from a_ch that show "a \<notin> fst ` set (ids c)"
        by auto
    qed
    have IH1: "distinct (map fst (ids (U c)))" if "c \<in> set (children n)" for c
      using IH [OF that] by simp
    have IH2: "set (ids c) \<subseteq> set (ids (U c))" if "c \<in> set (children n)" for c
      using IH [OF that] by simp
    have IH3: "fst ` set (ids (U c)) \<subseteq> insert a (fst ` set (ids c))"
      if "c \<in> set (children n)" for c
      using IH [OF that] by simp
    have IH4: "parent' \<in> fst ` set (ids c)"
      if "c \<in> set (children n)" "a \<in> fst ` set (ids (U c))" for c
      using IH [OF that(1)] that(2) by simp
    have IH5: "snd ` set (ids (U c)) \<subseteq> snd ` set (ids c)" if "c \<in> set (children n)" for c
      using IH [OF that] by simp
    have d': "distinct (concat (map ?B (children n)))"
      using dch a_ch
    proof (rule distinct_concat_map_insert [where w = parent'])
      fix c assume c: "c \<in> set (children n)"
      from IH1 [OF c] show "distinct (map fst (ids (U c)))" .
      from IH3 [OF c] show "set (map fst (ids (U c))) \<subseteq> insert a (set (map fst (ids c)))" by simp
      assume "a \<in> set (map fst (ids (U c)))"
      with IH4 [OF c] show "parent' \<in> set (map fst (ids c))" by simp
    qed
    have setU: "set (ids (U n)) = insert (addr n, filepath n) (\<Union>c \<in> set (children n). set (ids (U c)))"
      unfolding idsU by simp
    have setn: "set (ids n) = insert (addr n, filepath n) (\<Union>c \<in> set (children n). set (ids c))"
      by (subst idsn) simp
    have top': "addr n \<notin> fst ` set (ids (U c))" if "c \<in> set (children n)" for c
      using IH3 [OF that] top a_n that by auto
    have 1: "distinct (map fst (ids (U n)))"
      unfolding idsU using d' top' by (auto simp: map_concat comp_def)
    have 2: "set (ids n) \<subseteq> set (ids (U n))"
      unfolding setU setn using IH2 by blast
    have 3: "fst ` set (ids (U n)) \<subseteq> insert a (fst ` set (ids n))"
      unfolding setU setn using IH3 by (simp add: image_UN) blast
    have 4: "a \<in> fst ` set (ids (U n)) \<longrightarrow> parent' \<in> fst ` set (ids n)"
      unfolding setU setn using IH4 a_n by (simp add: image_UN) blast
    have 5: "snd ` set (ids (U n)) \<subseteq> snd ` set (ids n)"
      unfolding setU setn using IH5 by (simp add: image_UN) blast
    have 6: "hd (ids (U n)) = hd (ids n)"
      unfolding idsU by simp
    from 1 2 3 4 5 6 show ?thesis by blast
  qed
qed


lemma AddSubsongs_step_invariant:
  assumes inv: "invariant s"
  shows "invariant ((update_store parent' (\<lambda>p. AddChild (newChildNode (nextAddr s) cnt d p) p) s)
      \<lparr>nextAddr := Suc (nextAddr s)\<rparr>)" (is "invariant ?s'")
proof -
  let ?a = "nextAddr s"
  let ?U = "update_node parent' (\<lambda>p. AddChild (newChildNode ?a cnt d p) p)"
  let ?A = "\<lambda>e. map fst (ids e)" and ?B = "\<lambda>e. map fst (ids (?U e))"
  have en: "entries ?s' = map ?U (entries s)" and nx: "nextAddr ?s' = Suc ?a"
    and ac: "activeItem ?s' = activeItem s"
    by (simp_all add: update_store_def)
  from inv have di: "distinct (concat (map ?A (entries s)))"
    and lt: "\<forall>p \<in> set (concat (map ids (entries s))). fst p < ?a"
    and fp: "\<forall>e \<in> set (entries s). \<forall>p \<in> set (ids e). snd p = snd (hd (ids e))"
    and av: "case activeItem s of None \<Rightarrow> True
              | Some x \<Rightarrow> x \<in> fst ` set (concat (map ids (entries s)))"
    by (simp_all add: invariant_def store_inv_ids active_inv_ids map_concat comp_def)
  have lt': "fst q < ?a" if "e \<in> set (entries s)" "q \<in> set (ids e)" for e q
  proof -
    from that have "q \<in> set (concat (map ids (entries s)))"
      by auto
    with lt show ?thesis by blast
  qed
  have fresh: "?a \<notin> set (concat (map ?A (entries s)))"
  proof
    assume "?a \<in> set (concat (map ?A (entries s)))"
    then obtain e q where eq: "e \<in> set (entries s)" "q \<in> set (ids e)" "fst q = ?a"
      by force
    with lt' [OF eq(1,2)] show False by simp
  qed
  have T: "distinct (map fst (ids (?U e))) \<and> set (ids e) \<subseteq> set (ids (?U e)) \<and>
      fst ` set (ids (?U e)) \<subseteq> insert ?a (fst ` set (ids e)) \<and>
      (?a \<in> fst ` set (ids (?U e)) \<longrightarrow> parent' \<in> fst ` set (ids e)) \<and>
      snd ` set (ids (?U e)) \<subseteq> snd ` set (ids e) \<and> hd (ids (?U e)) = hd (ids e)"
    if "e \<in> set (entries s)" for e
  proof (rule ids_update_node_AddChild)
    from di that show "distinct (map fst (ids e))"
      by (auto simp: distinct_concat_iff)
    from fresh that show "?a \<notin> fst ` set (ids e)"
      by auto
  qed
  have T1: "distinct (map fst (ids (?U e)))" if "e \<in> set (entries s)" for e
    using T [OF that] by simp
  have T2: "set (ids e) \<subseteq> set (ids (?U e))" if "e \<in> set (entries s)" for e
    using T [OF that] by simp
  have T3: "fst ` set (ids (?U e)) \<subseteq> insert ?a (fst ` set (ids e))"
    if "e \<in> set (entries s)" for e
    using T [OF that] by simp
  have T4: "parent' \<in> fst ` set (ids e)"
    if "e \<in> set (entries s)" "?a \<in> fst ` set (ids (?U e))" for e
    using T [OF that(1)] that(2) by simp
  have T5: "snd ` set (ids (?U e)) \<subseteq> snd ` set (ids e)" if "e \<in> set (entries s)" for e
    using T [OF that] by simp
  have T6: "hd (ids (?U e)) = hd (ids e)" if "e \<in> set (entries s)" for e
    using T [OF that] by simp
  have "distinct (concat (map ?B (entries s)))"
    using di fresh
  proof (rule distinct_concat_map_insert [where w = parent'])
    fix e assume e: "e \<in> set (entries s)"
    from T1 [OF e] show "distinct (map fst (ids (?U e)))" .
    from T3 [OF e] show "set (map fst (ids (?U e))) \<subseteq> insert ?a (set (map fst (ids e)))"
      by simp
    assume "?a \<in> set (map fst (ids (?U e)))"
    with T4 [OF e] show "parent' \<in> set (map fst (ids e))" by simp
  qed
  then have 1: "distinct (map fst (concat (map ids (entries ?s'))))"
    unfolding en by (simp add: map_concat comp_def)
  have 2: "\<forall>p \<in> set (concat (map ids (entries ?s'))). fst p < nextAddr ?s'"
  proof
    fix p assume "p \<in> set (concat (map ids (entries ?s')))"
    then obtain e where e: "e \<in> set (entries s)" "p \<in> set (ids (?U e))"
      unfolding en by auto
    with T3 [OF e(1)] have "fst p = ?a \<or> fst p \<in> fst ` set (ids e)"
      by auto
    then show "fst p < nextAddr ?s'"
    proof
      assume "fst p = ?a"
      then show ?thesis unfolding nx by simp
    next
      assume "fst p \<in> fst ` set (ids e)"
      then obtain q where "q \<in> set (ids e)" "fst q = fst p"
        by auto
      with lt' [OF e(1), of q] show ?thesis unfolding nx by simp
    qed
  qed
  have 3: "\<forall>l \<in> set (map ids (entries ?s')). \<forall>p \<in> set l. snd p = snd (hd l)"
  proof (intro ballI)
    fix l p assume "l \<in> set (map ids (entries ?s'))" and p: "p \<in> set l"
    then obtain e where e: "e \<in> set (entries s)" and l: "l = ids (?U e)"
      unfolding en by auto
    from p l T5 [OF e] have "snd p \<in> snd ` set (ids e)"
      by auto
    with fp e have "snd p = snd (hd (ids e))"
      by auto
    with T6 [OF e] l show "snd p = snd (hd l)"
      by simp
  qed
  have 4: "case activeItem ?s' of None \<Rightarrow> True
              | Some x \<Rightarrow> x \<in> fst ` set (concat (map ids (entries ?s')))"
  proof (cases "activeItem s")
    case None
    then show ?thesis unfolding ac by simp
  next
    case (Some x)
    with av obtain e where e: "e \<in> set (entries s)" "x \<in> fst ` set (ids e)"
      by auto
    with T2 [OF e(1)] have "x \<in> fst ` set (ids (?U e))"
      by auto
    with e(1) Some show ?thesis
      unfolding ac en by auto
  qed
  from 1 2 3 4 show ?thesis
    unfolding invariant_def store_inv_ids active_inv_ids by blast
qed

lemma AddSubsongs_loop_invariant:
  "invariant s \<Longrightarrow> invariant (AddSubsongs_loop parent' cnt durations s)"
proof (induction durations arbitrary: s cnt)
  case Nil
  then show ?case by simp
next
  case (Cons d durations)
  from AddSubsongs_step_invariant [OF Cons.prems] show ?case
    by (simp add: Let_def Cons.IH)
qed

lemma AddSubsongs_invariant:
  assumes inv: "invariant s" and run: "AddSubsongs s durations parent' = Inr s'"
  shows "invariant s'"
proof (cases "durations = []")
  case True
  with run inv show ?thesis by (simp add: AddSubsongs_def)
next
  case False
  with run have s': "s' = notify (ItemsAdded parent') (AddSubsongs_loop parent' 0 durations s)"
    by (auto simp: AddSubsongs_def split: option.splits)
  have "invariant s' = invariant (AddSubsongs_loop parent' 0 durations s)"
    unfolding s' by (rule invariant_cong) simp_all
  with AddSubsongs_loop_invariant [OF inv] show ?thesis by simp
qed


lemma find_if_found: "find_if P xs \<noteq> length xs \<Longrightarrow> P (xs ! find_if P xs)"
  by (induction xs) auto

lemma node_in_nodes_of: "n \<in> set (nodes_of n)"
  by (subst nodes_of.simps) simp

text \<open>In a state that satisfies the invariant a reference to a node of the store resolves
  to that node.\<close>

lemma deref_node:
  assumes "invariant s" and "n \<in> set (all_nodes s)"
  shows "deref s (addr n) = Some n"
proof -
  from assms(1) have di: "distinct (map addr (all_nodes s))"
    by (simp add: invariant_def store_inv_def)
  from assms(2) have "find (\<lambda>m. addr m = addr n) (all_nodes s) \<noteq> None"
    by (auto simp: find_None_iff)
  then obtain m where m: "deref s (addr n) = Some m"
    by (auto simp: deref_def)
  then have "addr m = addr n" "m \<in> set (all_nodes s)"
    by (auto dest: deref_Some)
  with di assms(2) have "m = n"
    by (auto simp: distinct_map dest: inj_onD)
  with m show ?thesis by simp
qed

lemma Remove_invariant:
  assumes inv: "invariant s" and run: "Remove s item = Inr s'"
  shows "invariant s'"
proof -
  define i where "i = find_if (\<lambda>q. addr q = item) (entries s)"
  define es' where "es' = (if i \<noteq> length (entries s) then erase i (entries s) else entries s)"
  from run obtain itemNode where item: "deref s item = Some itemNode"
    by (auto simp: Remove_def split: option.splits)
  from run item have en: "entries s' = es'" and nx: "nextAddr s' = nextAddr s"
    by (auto simp: Remove_def Let_def GetActiveSong_def i_def es'_def
        split: option.splits sum.splits if_splits)
  from run item have ac: "activeItem s' = None \<or>
      (\<exists>a act. activeItem s' = Some a \<and> activeItem s = Some a \<and> deref s a = Some act \<and>
         filepath act \<noteq> filepath itemNode)"
    by (auto simp: Remove_def Let_def GetActiveSong_def split: option.splits sum.splits if_splits)
  from inv have di: "distinct (map addr (all_nodes s))"
    and lt: "\<forall>n \<in> set (all_nodes s). addr n < nextAddr s"
    and fp: "\<forall>e \<in> set (entries s). \<forall>n \<in> set (nodes_of e). filepath n = filepath e"
    by (simp_all add: invariant_def store_inv_def)
  show ?thesis
  proof (cases "i = length (entries s)")
    case True
    then have same: "entries s' = entries s"
      by (simp add: en es'_def)
    then have "store_inv s' = store_inv s"
      by (intro store_inv_cong) (simp_all add: nx)
    moreover have "active_inv s'"
      using ac same by (auto simp: active_inv_def all_nodes_def dest!: deref_Some)
    ultimately show ?thesis
      using inv by (simp add: invariant_def)
  next
    case False
    have "i \<le> length (entries s)"
      unfolding i_def by (rule find_if_le_length)
    with False have il: "i < length (entries s)" by simp
    define e where "e = entries s ! i"
    define A where "A = concat (map nodes_of (take i (entries s)))"
    define B where "B = concat (map nodes_of (drop (Suc i) (entries s)))"
    from False have ae: "addr e = item"
      unfolding e_def i_def by (rule find_if_found)
    from il have split: "entries s = take i (entries s) @ e # drop (Suc i) (entries s)"
      unfolding e_def by (rule id_take_nth_drop)
    have an: "all_nodes s = A @ nodes_of e @ B"
      unfolding all_nodes_def A_def B_def by (subst split) simp
    have es': "es' = take i (entries s) @ drop (Suc i) (entries s)"
      using False by (simp add: es'_def erase_def)
    have an': "all_nodes s' = A @ B"
      unfolding all_nodes_def en es' A_def B_def by simp
    have sub: "set es' \<subseteq> set (entries s)"
      unfolding es' by (subst (3) split) auto
    have 1: "distinct (map addr (all_nodes s'))"
      using di unfolding an an' by auto
    have 2: "\<forall>n \<in> set (all_nodes s'). addr n < nextAddr s'"
      using lt unfolding an an' nx by auto
    have 3: "\<forall>e \<in> set (entries s'). \<forall>n \<in> set (nodes_of e). filepath n = filepath e"
      using fp sub unfolding en by blast
    have 4: "active_inv s'"
      using ac
    proof
      assume "activeItem s' = None"
      then show ?thesis by (simp add: active_inv_def)
    next
      assume "\<exists>a act. activeItem s' = Some a \<and> activeItem s = Some a \<and> deref s a = Some act \<and>
         filepath act \<noteq> filepath itemNode"
      then obtain a act where a: "activeItem s' = Some a" "deref s a = Some act"
        "filepath act \<noteq> filepath itemNode"
        by blast
      from a(2) have act: "addr act = a" "act \<in> set (all_nodes s)"
        by (auto dest: deref_Some)
      from item have itn: "addr itemNode = item" "itemNode \<in> set (all_nodes s)"
        by (auto dest: deref_Some)
      have "e \<in> set (all_nodes s)"
        unfolding an using node_in_nodes_of [of e] by simp
      with di itn ae have "itemNode = e"
        by (auto simp: distinct_map dest: inj_onD)
      have "act \<notin> set (nodes_of e)"
      proof
        assume "act \<in> set (nodes_of e)"
        moreover have "e \<in> set (entries s)"
          by (subst split) simp
        ultimately have "filepath act = filepath e"
          using fp by blast
        with a(3) \<open>itemNode = e\<close> show False by simp
      qed
      with act(2) have "act \<in> set (all_nodes s')"
        unfolding an an' by auto
      with act(1) a(1) show ?thesis
        by (auto simp: active_inv_def)
    qed
    from 1 2 3 4 show ?thesis
      by (simp add: invariant_def store_inv_def)
  qed
qed

lemma new_Playlist_invariant: "invariant (new_Playlist opt)"
  by (simp add: new_Playlist_def invariant_def store_inv_def active_inv_def all_nodes_def)

lemma run_invariant:
  assumes "invariant s" and "run s op = Inr s'"
  shows "invariant s'"
proof (cases op)
  case (OpAddMainSong ti fp ds du au rr pl)
  with assms AddMainSong_invariant [of s ti fp ds du au rr pl] show ?thesis by auto
next
  case (OpAddSubsongs durations parent')
  with assms AddSubsongs_invariant [of s durations parent' s'] show ?thesis by simp
next
  case (OpRemove item)
  with assms Remove_invariant [of s item s'] show ?thesis by simp
next
  case OpClear
  with assms Clear_invariant [of s] show ?thesis by auto
next
  case OpRefreshAuthorColumnVisibility
  with assms Refresh_invariant [of s] show ?thesis by auto
next
  case (OpTrySetActiveSong node autoexpand)
  with assms obtain b where "TrySetActiveSong s node autoexpand = Inr (b, s')"
    by (auto split: sum.splits)
  with assms(1) show ?thesis by (rule TrySetActiveSong_invariant)
next
  case (OpSetItemTag node tag' force)
  with assms SetItemTag_invariant [of s node tag' force s'] show ?thesis by simp
qed

lemma run_all_invariant:
  "invariant s \<Longrightarrow> run_all s ops = Inr s' \<Longrightarrow> invariant s'"
proof (induction ops arbitrary: s)
  case Nil
  then show ?case by simp
next
  case (Cons op ops)
  from Cons.prems(2) obtain t where t: "run s op = Inr t" "run_all t ops = Inr s'"
    by (auto split: sum.splits)
  from Cons.prems(1) t(1) have "invariant t" by (rule run_invariant)
  from Cons.IH [OF this t(2)] show ?case .
qed

lemma invariant_active_present:
  assumes "invariant s" and "GetActiveSong s = Some a"
  shows "\<exists>n. deref s a = Some n \<and> addr n = a"
proof -
  from assms have "a \<in> addr ` set (all_nodes s)"
    by (simp add: invariant_def active_inv_def GetActiveSong_def)
  then obtain m where "m \<in> set (all_nodes s)" "addr m = a"
    by auto
  then have "find (\<lambda>n. addr n = a) (all_nodes s) \<noteq> None"
    by (auto simp: find_None_iff)
  then show ?thesis
    by (auto simp: deref_def dest: find_Some_iff [THEN iffD1])
qed

text \<open>
  Claim C6. The active item is one optional reference, so at most one entry is active.
  Every state reached from the empty playlist by the operations satisfies the invariant,
  and every operation that returns preserves it; in a state that satisfies it the active
  item, when set, is the address of a node of the store. \<^verbatim>\<open>Remove\<close> of the active entry
  and \<^verbatim>\<open>Clear\<close> leave no active item.
\<close>

theorem active_item_invariant:
  "(run_all (new_Playlist opt) ops = Inr s \<longrightarrow> invariant s)
   \<and> (invariant s \<and> run s op = Inr s' \<longrightarrow> invariant s')
   \<and> (invariant s \<and> GetActiveSong s = Some a \<longrightarrow> (\<exists>n. deref s a = Some n \<and> addr n = a))
   \<and> (GetActiveSong s = Some a \<and> Remove s a = Inr s' \<longrightarrow> GetActiveSong s' = None)
   \<and> GetActiveSong (Clear s) = None"
proof -
  have "GetActiveSong s' = None" if "GetActiveSong s = Some a" "Remove s a = Inr s'"
    using that
    by (auto simp: Remove_def GetActiveSong_def Let_def split: option.splits sum.splits if_splits)
  moreover have "GetActiveSong (Clear s) = None"
    by (simp add: Clear_def GetActiveSong_def Let_def)
  ultimately show ?thesis
    using run_all_invariant [OF new_Playlist_invariant] run_invariant invariant_active_present
    by blast
qed

theorem active_item_invariant_witness:
  "run_all (new_Playlist False) demo_operations = Inr (demo_active 4)
   \<and> invariant (demo_active 4)
   \<and> GetActiveSong (demo_active 4) = Some 4
   \<and> (\<exists>n. deref (demo_active 4) 4 = Some n \<and> addr n = 4)
   \<and> (\<exists>s'. run (demo_active 4) (OpRemove 4) = Inr s' \<and> invariant s' \<and> GetActiveSong s' = None)
   \<and> (\<exists>s'. run (demo_active 4) (OpRemove 1) = Inr s' \<and> invariant s' \<and> GetActiveSong s' = None
          \<and> entries s' = [entries (demo_active 4) ! 1])"
proof -
  have r: "run_all (new_Playlist False) demo_operations = Inr (demo_active 4)"
    and g: "GetActiveSong (demo_active 4) = Some 4"
    by code_simp+
  have "case Remove (demo_active 4) 4 of Inl e \<Rightarrow> False | Inr s' \<Rightarrow> True"
    by code_simp
  then obtain s1 where s1: "Remove (demo_active 4) 4 = Inr s1"
    by (cases "Remove (demo_active 4) 4") auto
  have "case Remove (demo_active 4) 1 of
          Inl e \<Rightarrow> False
        | Inr s' \<Rightarrow> GetActiveSong s' = None \<and> entries s' = [entries (demo_active 4) ! 1]"
    by code_simp
  then obtain s2 where s2: "Remove (demo_active 4) 1 = Inr s2" "GetActiveSong s2 = None"
    "entries s2 = [entries (demo_active 4) ! 1]"
    by (cases "Remove (demo_active 4) 1") auto
  note t = active_item_invariant [of False demo_operations "demo_active 4"]
  from t [of "OpRemove 4" s1 4] r g s1 have 1: "invariant (demo_active 4)"
    "\<exists>n. deref (demo_active 4) 4 = Some n \<and> addr n = 4" "invariant s1" "GetActiveSong s1 = None"
    by simp_all
  from t [of "OpRemove 1" s2 4] r s2 have 2: "invariant s2"
    by simp
  from r g 1 2 s1 s2 show ?thesis by simp
qed

section \<open>Removing a song, removing a subsong\<close>

text \<open>The removal of a root song works: in a state that satisfies the invariant the song
  leaves the root collection and no node of its subtree stays in the store.\<close>

lemma Remove_song_removes_subtree:
  assumes inv: "invariant s" and e: "e \<in> set (entries s)"
    and run: "Remove s (addr e) = Inr s'"
  shows "entries s' = remove1 e (entries s) \<and> (\<forall>n \<in> set (nodes_of e). deref s' (addr n) = None)"
proof -
  define i where "i = find_if (\<lambda>q. addr q = addr e) (entries s)"
  from inv have di: "distinct (map addr (all_nodes s))"
    by (simp add: invariant_def store_inv_def)
  from e have il: "i < length (entries s)"
    unfolding i_def by (rule find_if_less) simp
  then have "addr (entries s ! i) = addr e"
    unfolding i_def
    using find_if_found [of "\<lambda>q. addr q = addr e" "entries s"] by simp
  moreover have root: "x \<in> set (all_nodes s)" if "x \<in> set (entries s)" for x
    using that node_in_nodes_of [of x] unfolding all_nodes_def by auto
  then have "entries s ! i \<in> set (all_nodes s)" "e \<in> set (all_nodes s)"
    using il e by simp_all
  ultimately have ei: "entries s ! i = e"
    using di by (auto simp: distinct_map dest: inj_onD)
  have before: "e \<notin> set (take i (entries s))"
  proof
    assume "e \<in> set (take i (entries s))"
    then obtain j where "j < i" "entries s ! j = e"
      using il by (auto simp: in_set_conv_nth)
    with find_if_first [of j "\<lambda>q. addr q = addr e" "entries s"] show False
      by (simp add: i_def)
  qed
  from il ei have split: "entries s = take i (entries s) @ e # drop (Suc i) (entries s)"
    using id_take_nth_drop by fastforce
  define A where "A = concat (map nodes_of (take i (entries s)))"
  define B where "B = concat (map nodes_of (drop (Suc i) (entries s)))"
  have an: "all_nodes s = A @ nodes_of e @ B"
    unfolding all_nodes_def A_def B_def by (subst split) simp
  from run il have en: "entries s' = take i (entries s) @ drop (Suc i) (entries s)"
    by (auto simp: Remove_def Let_def i_def erase_def split: option.splits sum.splits if_splits)
  have 1: "entries s' = remove1 e (entries s)"
    unfolding en by (subst (3) split) (simp add: remove1_append before)
  have an': "all_nodes s' = A @ B"
    unfolding all_nodes_def en A_def B_def by simp
  have 2: "deref s' (addr n) = None" if "n \<in> set (nodes_of e)" for n
  proof -
    from di that have "addr n \<notin> addr ` set (all_nodes s')"
      unfolding an an' by auto
    then have "\<not> (\<exists>x. x \<in> set (all_nodes s') \<and> addr x = addr n)"
      by (metis imageI)
    then show ?thesis
      unfolding deref_def find_None_iff .
  qed
  from 1 2 show ?thesis by blast
qed

text \<open>
  Claim C2, evaluated at the store with two songs and three subsongs of the first song.
  \<^verbatim>\<open>Remove\<close> of subsong 2 (the node at address 4) looks for the node among the root
  entries only, finds nothing to erase, and leaves the song list as it was: the subsong is
  still the second child of its song, the song still has three subsongs, and the base
  control is told that the item was deleted.
\<close>

theorem Remove_subsong_keeps_subsong:
  "deref demo_subsongs 4 = Some (children (entries demo_subsongs ! 0) ! 1)
   \<and> type (children (entries demo_subsongs ! 0) ! 1) = Subsong
   \<and> (case Remove demo_subsongs 4 of
        Inl e \<Rightarrow> False
      | Inr s' \<Rightarrow>
          entries s' = entries demo_subsongs
          \<and> GetSubsongCount (entries s' ! 0) = 3
          \<and> deref s' 4 = Some (children (entries demo_subsongs ! 0) ! 1)
          \<and> last (notifications s') = ItemDeleted (Some 1) 4)"
  by code_simp

end
